theory Spec2Isabelle
  imports Main "HOL-Library.Word"
begin

section \<open>The Voting contract (contracts/Voting.sol)\<close>

text \<open>
  Solidity's \<open>address\<close> is a 160-bit value and \<open>uint\<close> a 256-bit one. The contract is
  compiled with Solidity 0.8, whose arithmetic is checked: \<open>x++\<close> at the largest value
  reverts with \<open>Panic(0x11)\<close>, and an array access out of range with \<open>Panic(0x32)\<close>.
  A failed \<open>require\<close> reverts with \<open>Error(message)\<close>, and \<open>new T[](n)\<close> with a length
  above \<open>2^64 - 1\<close> reverts with \<open>Panic(0x41)\<close>. Gas, which the host may add to this, is
  not part of the model: a call is followed to its end.
\<close>

type_synonym address = "160 word"
type_synonym uint = "256 word"

datatype revert = Error string | Panic nat

datatype event =
    VoterRegistered address uint
  | CandidateAdded uint string uint
  | VoteCast address uint uint
  | VotingStatusChanged bool uint
  | AdminChanged address address uint

text \<open>
  The storage of the contract, field by field, and the events emitted so far (the audit
  log). A mapping of Solidity is total: a key never written holds the default value.
\<close>

record state =
  admin :: address
  registeredVoters :: "address \<Rightarrow> bool"
  hasVoted :: "address \<Rightarrow> bool"
  voteCounts :: "uint \<Rightarrow> uint"
  candidates :: "uint \<Rightarrow> string"
  candidateCount :: uint
  totalVotes :: uint
  votingActive :: bool
  events :: "event list"

definition uint_max :: uint where
  "uint_max = - 1"

definition emit :: "event \<Rightarrow> state \<Rightarrow> state" where
  "emit e s = s\<lparr>events := events s @ [e]\<rparr>"

text \<open>\<open>x++\<close> and \<open>x - 1\<close> under checked arithmetic.\<close>

definition checked_inc :: "uint \<Rightarrow> revert + uint" where
  "checked_inc x = (if x = uint_max then Inl (Panic 0x11) else Inr (x + 1))"

definition checked_dec :: "uint \<Rightarrow> revert + uint" where
  "checked_dec x = (if x = 0 then Inl (Panic 0x11) else Inr (x - 1))"

text \<open>
  \<open>new T[](n)\<close>: a memory array of \<open>n\<close> default values. The compiled code refuses a
  length above \<open>0xffffffffffffffff\<close>.
\<close>

definition new_array :: "uint \<Rightarrow> 'a \<Rightarrow> revert + 'a list" where
  "new_array n x =
     (if n > 0xffffffffffffffff then Inl (Panic 0x41) else Inr (replicate (unat n) x))"

subsection \<open>The revert messages\<close>

abbreviation NotAdmin :: revert where
  "NotAdmin \<equiv> Error ''Only admin can perform this action''"
abbreviation NotRegistered :: revert where
  "NotRegistered \<equiv> Error ''You are not registered to vote''"
abbreviation AlreadyVoted :: revert where
  "AlreadyVoted \<equiv> Error ''You have already voted''"
abbreviation VotingInactive :: revert where
  "VotingInactive \<equiv> Error ''Voting is currently inactive''"
abbreviation AlreadyRegistered :: revert where
  "AlreadyRegistered \<equiv> Error ''Voter is already registered''"
abbreviation InvalidVoter :: revert where
  "InvalidVoter \<equiv> Error ''Invalid voter address''"
abbreviation EmptyName :: revert where
  "EmptyName \<equiv> Error ''Candidate name cannot be empty''"
abbreviation NameTooLong :: revert where
  "NameTooLong \<equiv> Error ''Candidate name too long''"
abbreviation InvalidAdmin :: revert where
  "InvalidAdmin \<equiv> Error ''Invalid admin address''"
abbreviation SameAdmin :: revert where
  "SameAdmin \<equiv> Error ''New admin cannot be the same as current admin''"
abbreviation InvalidCandidate :: revert where
  "InvalidCandidate \<equiv> Error ''Invalid candidate ID''"

subsection \<open>Modifiers\<close>

text \<open>
  A modifier runs its \<open>require\<close> and then the body (\<open>_;\<close>). The argument \<open>sender\<close> is
  \<open>msg.sender\<close>.
\<close>

definition onlyAdmin :: "address \<Rightarrow> (state \<Rightarrow> revert + state) \<Rightarrow> state \<Rightarrow> revert + state" where
  "onlyAdmin sender body s = (if sender = admin s then body s else Inl NotAdmin)"

definition onlyRegisteredVoter :: "address \<Rightarrow> (state \<Rightarrow> revert + state) \<Rightarrow> state \<Rightarrow> revert + state" where
  "onlyRegisteredVoter sender body s =
     (if registeredVoters s sender then body s else Inl NotRegistered)"

definition hasNotVoted :: "address \<Rightarrow> (state \<Rightarrow> revert + state) \<Rightarrow> state \<Rightarrow> revert + state" where
  "hasNotVoted sender body s = (if \<not> hasVoted s sender then body s else Inl AlreadyVoted)"

definition votingIsActive :: "(state \<Rightarrow> revert + state) \<Rightarrow> state \<Rightarrow> revert + state" where
  "votingIsActive body s = (if votingActive s then body s else Inl VotingInactive)"

subsection \<open>Constructor and admin functions\<close>

text \<open>\<open>now\<close> is \<open>block.timestamp\<close> of the transaction.\<close>

definition constructor :: "address \<Rightarrow> uint \<Rightarrow> state" where
  "constructor sender now =
     emit (VotingStatusChanged False now)
       (emit (AdminChanged 0 sender now)
          \<lparr>admin = sender,
           registeredVoters = (\<lambda>_. False),
           hasVoted = (\<lambda>_. False),
           voteCounts = (\<lambda>_. 0),
           candidates = (\<lambda>_. []),
           candidateCount = 0,
           totalVotes = 0,
           votingActive = False,
           events = []\<rparr>)"

definition registerVoter :: "address \<Rightarrow> uint \<Rightarrow> address \<Rightarrow> state \<Rightarrow> revert + state" where
  "registerVoter sender now voter =
     onlyAdmin sender (\<lambda>s.
       if \<not> (\<not> registeredVoters s voter) then Inl AlreadyRegistered
       else if \<not> (voter \<noteq> 0) then Inl InvalidVoter
       else Inr (emit (VoterRegistered voter now)
                  (s\<lparr>registeredVoters := (registeredVoters s)(voter := True)\<rparr>)))"

definition addCandidate :: "address \<Rightarrow> uint \<Rightarrow> string \<Rightarrow> state \<Rightarrow> revert + state" where
  "addCandidate sender now name =
     onlyAdmin sender (\<lambda>s.
       if \<not> (length name > 0) then Inl EmptyName
       else if \<not> (length name \<le> 64) then Inl NameTooLong
       else case checked_inc (candidateCount s) of
              Inl e \<Rightarrow> Inl e
            | Inr c \<Rightarrow>
                let s1 = s\<lparr>candidateCount := c\<rparr>;
                    s2 = s1\<lparr>candidates := (candidates s1)(candidateCount s1 := name)\<rparr>
                in Inr (emit (CandidateAdded (candidateCount s2) name now) s2))"

definition toggleVoting :: "address \<Rightarrow> uint \<Rightarrow> state \<Rightarrow> revert + state" where
  "toggleVoting sender now =
     onlyAdmin sender (\<lambda>s.
       let s1 = s\<lparr>votingActive := \<not> votingActive s\<rparr>
       in Inr (emit (VotingStatusChanged (votingActive s1) now) s1))"

definition transferAdmin :: "address \<Rightarrow> uint \<Rightarrow> address \<Rightarrow> state \<Rightarrow> revert + state" where
  "transferAdmin sender now newAdmin =
     onlyAdmin sender (\<lambda>s.
       if \<not> (newAdmin \<noteq> 0) then Inl InvalidAdmin
       else if \<not> (newAdmin \<noteq> admin s) then Inl SameAdmin
       else let oldAdmin = admin s;
                s1 = s\<lparr>admin := newAdmin\<rparr>
            in Inr (emit (AdminChanged oldAdmin newAdmin now) s1))"

subsection \<open>Voting\<close>

definition vote :: "address \<Rightarrow> uint \<Rightarrow> uint \<Rightarrow> state \<Rightarrow> revert + state" where
  "vote sender now candidateId =
     onlyRegisteredVoter sender (hasNotVoted sender (votingIsActive (\<lambda>s.
       if \<not> (candidateId > 0 \<and> candidateId \<le> candidateCount s) then Inl InvalidCandidate
       else
         let s1 = s\<lparr>hasVoted := (hasVoted s)(sender := True)\<rparr> in
         (case checked_inc (voteCounts s1 candidateId) of
            Inl e \<Rightarrow> Inl e
          | Inr v \<Rightarrow>
              let s2 = s1\<lparr>voteCounts := (voteCounts s1)(candidateId := v)\<rparr> in
              (case checked_inc (totalVotes s2) of
                 Inl e \<Rightarrow> Inl e
               | Inr t \<Rightarrow>
                   let s3 = s2\<lparr>totalVotes := t\<rparr>
                   in Inr (emit (VoteCast sender candidateId now) s3))))))"

subsection \<open>View functions\<close>

text \<open>
  The loop \<open>for (uint i = 1; i <= candidateCount; i++)\<close> of \<open>showResults\<close>, from the
  value \<open>i\<close> of the counter on. The arrays \<open>votes\<close> and \<open>names\<close> are written by index.
\<close>

function showResults_loop ::
  "state \<Rightarrow> uint \<Rightarrow> uint list \<Rightarrow> string list \<Rightarrow> uint \<Rightarrow> uint
     \<Rightarrow> revert + (uint list \<times> string list \<times> uint)" where
  "showResults_loop s i votes names highestVoteCount winningCandidateId =
     (if i \<le> candidateCount s then
        (case checked_dec i of
           Inl e \<Rightarrow> Inl e
         | Inr j \<Rightarrow>
             if \<not> unat j < length votes then Inl (Panic 0x32)
             else if \<not> unat j < length names then Inl (Panic 0x32)
             else
               let votes' = votes[unat j := voteCounts s i];
                   names' = names[unat j := candidates s i];
                   hw = (if voteCounts s i > highestVoteCount then (voteCounts s i, i)
                         else (highestVoteCount, winningCandidateId))
               in (if i = uint_max then Inl (Panic 0x11)
                   else showResults_loop s (i + 1) votes' names' (fst hw) (snd hw)))
      else Inr (votes, names, winningCandidateId))"
  by pat_completeness auto
termination
proof (relation "measure (\<lambda>(s, i, votes, names, h, w). Suc (unat (candidateCount s)) - unat i)")
  show "wf (measure (\<lambda>(s, i, votes, names, h, w). Suc (unat (candidateCount s)) - unat i))"
    by simp
next
  fix s :: state and i :: uint and votes votes' :: "uint list" and names names' :: "string list"
    and h w :: uint and hw :: "uint \<times> uint"
  assume "i \<le> candidateCount s" and "i \<noteq> uint_max"
  then have "unat i \<le> unat (candidateCount s)" and "unat (i + 1) = Suc (unat i)"
    by (simp add: word_le_nat_alt, metis add.commute max_word_wrap unatSuc uint_max_def)
  then show "((s, i + 1, votes', names', fst hw, snd hw), (s, i, votes, names, h, w))
       \<in> measure (\<lambda>(s, i, votes, names, h, w). Suc (unat (candidateCount s)) - unat i)"
    by simp
qed

definition showResults :: "state \<Rightarrow> revert + (uint list \<times> string list \<times> uint)" where
  "showResults s =
     (case new_array (candidateCount s) 0 of
        Inl e \<Rightarrow> Inl e
      | Inr votes \<Rightarrow>
          (case new_array (candidateCount s) [] of
             Inl e \<Rightarrow> Inl e
           | Inr names \<Rightarrow>
               if candidateCount s = 0 then Inr (votes, names, 0)
               else showResults_loop s 1 votes names 0 1))"

text \<open>The loop of \<open>getWinner\<close>; it returns \<open>highestVoteCount\<close> and \<open>winningCandidateId\<close>.\<close>

function getWinner_loop :: "state \<Rightarrow> uint \<Rightarrow> uint \<Rightarrow> uint \<Rightarrow> revert + (uint \<times> uint)" where
  "getWinner_loop s i highestVoteCount winningCandidateId =
     (if i \<le> candidateCount s then
        let hw = (if voteCounts s i > highestVoteCount then (voteCounts s i, i)
                  else (highestVoteCount, winningCandidateId))
        in (if i = uint_max then Inl (Panic 0x11)
            else getWinner_loop s (i + 1) (fst hw) (snd hw))
      else Inr (highestVoteCount, winningCandidateId))"
  by pat_completeness auto
termination
proof (relation "measure (\<lambda>(s, i, h, w). Suc (unat (candidateCount s)) - unat i)")
  show "wf (measure (\<lambda>(s, i, h, w). Suc (unat (candidateCount s)) - unat i))"
    by simp
next
  fix s :: state and i h w :: uint and hw :: "uint \<times> uint"
  assume "i \<le> candidateCount s" and "i \<noteq> uint_max"
  then have "unat i \<le> unat (candidateCount s)" and "unat (i + 1) = Suc (unat i)"
    by (simp add: word_le_nat_alt, metis add.commute max_word_wrap unatSuc uint_max_def)
  then show "((s, i + 1, fst hw, snd hw), (s, i, h, w))
       \<in> measure (\<lambda>(s, i, h, w). Suc (unat (candidateCount s)) - unat i)"
    by simp
qed

definition getWinner :: "state \<Rightarrow> revert + (string \<times> uint \<times> bool)" where
  "getWinner s =
     (if candidateCount s = 0 then Inr ([], 0, False)
      else case getWinner_loop s 1 0 1 of
             Inl e \<Rightarrow> Inl e
           | Inr (highestVoteCount, winningCandidateId) \<Rightarrow>
               Inr (candidates s winningCandidateId, highestVoteCount, True))"

definition getCandidateInfo :: "state \<Rightarrow> uint \<Rightarrow> string \<times> uint \<times> bool" where
  "getCandidateInfo s candidateId =
     (if candidateId = 0 \<or> candidateId > candidateCount s then ([], 0, False)
      else (candidates s candidateId, voteCounts s candidateId, True))"

definition getVoterStatus :: "state \<Rightarrow> address \<Rightarrow> bool \<times> bool \<times> bool" where
  "getVoterStatus s voter =
     (let isRegistered = registeredVoters s voter;
          hasVotedAlready = hasVoted s voter;
          canVote = (isRegistered \<and> \<not> hasVotedAlready \<and> votingActive s)
      in (isRegistered, hasVotedAlready, canVote))"

definition getElectionStats :: "state \<Rightarrow> uint \<times> uint \<times> bool \<times> address" where
  "getElectionStats s = (candidateCount s, totalVotes s, votingActive s, admin s)"

subsection \<open>Transactions\<close>

text \<open>
  A transaction is a call of one public state-changing function by \<open>msg.sender\<close> at
  \<open>block.timestamp\<close>. A transaction that reverts leaves storage and log as they were.
\<close>

datatype call =
    RegisterVoter address
  | AddCandidate string
  | ToggleVoting
  | TransferAdmin address
  | Vote uint

type_synonym transaction = "address \<times> uint \<times> call"

fun execute :: "transaction \<Rightarrow> state \<Rightarrow> revert + state" where
  "execute (sender, now, RegisterVoter voter) s = registerVoter sender now voter s"
| "execute (sender, now, AddCandidate name) s = addCandidate sender now name s"
| "execute (sender, now, ToggleVoting) s = toggleVoting sender now s"
| "execute (sender, now, TransferAdmin newAdmin) s = transferAdmin sender now newAdmin s"
| "execute (sender, now, Vote candidateId) s = vote sender now candidateId s"

definition transact :: "transaction \<Rightarrow> state \<Rightarrow> state" where
  "transact tx s = (case execute tx s of Inl e \<Rightarrow> s | Inr s' \<Rightarrow> s')"

text \<open>The calls of the functions that carry the modifier \<open>onlyAdmin\<close>.\<close>

fun admin_only :: "call \<Rightarrow> bool" where
  "admin_only (Vote candidateId) = False"
| "admin_only c = True"

text \<open>
  The checks that an \<open>onlyAdmin\<close> function makes after its modifier: the \<open>require\<close>s of its
  body and the checked increment.
\<close>

fun body_checks :: "call \<Rightarrow> state \<Rightarrow> bool" where
  "body_checks (RegisterVoter voter) s \<longleftrightarrow> \<not> registeredVoters s voter \<and> voter \<noteq> 0"
| "body_checks (AddCandidate name) s \<longleftrightarrow>
     length name > 0 \<and> length name \<le> 64 \<and> candidateCount s \<noteq> uint_max"
| "body_checks ToggleVoting s \<longleftrightarrow> True"
| "body_checks (TransferAdmin newAdmin) s \<longleftrightarrow> newAdmin \<noteq> 0 \<and> newAdmin \<noteq> admin s"
| "body_checks (Vote candidateId) s \<longleftrightarrow> False"

text \<open>The states of a deployed contract: after the constructor, and after each transaction.\<close>

inductive reachable :: "state \<Rightarrow> bool" where
  deployed: "reachable (constructor sender now)"
| transacted: "reachable s \<Longrightarrow> reachable (transact tx s)"

text \<open>The states passed through when a list of transactions runs from \<open>s\<close>, in order.\<close>

fun history :: "state \<Rightarrow> transaction list \<Rightarrow> state list" where
  "history s [] = [s]"
| "history s (tx # txs) = s # history (transact tx s) txs"

text \<open>How often a flag goes from false to true along a list of observations.\<close>

fun rises :: "bool list \<Rightarrow> nat" where
  "rises (a # b # bs) = (if \<not> a \<and> b then 1 else 0) + rises (b # bs)"
| "rises bs = 0"

subsection \<open>Notions of the specification\<close>

text \<open>The candidates are the ids \<open>1, ..., candidateCount\<close>, in ascending order.\<close>

definition candidate_ids :: "state \<Rightarrow> uint list" where
  "candidate_ids s = map of_nat [1..<Suc (unat (candidateCount s))]"

text \<open>The ids \<open>i, ..., candidateCount\<close>: what the loops still have to visit at counter \<open>i\<close>.\<close>

definition ids_from :: "state \<Rightarrow> uint \<Rightarrow> uint list" where
  "ids_from s i = map of_nat [unat i..<Suc (unat (candidateCount s))]"

text \<open>The sum of \<open>voteCount\<close> over all candidates, as a natural number (no wrap-around).\<close>

definition sum_votes :: "state \<Rightarrow> nat" where
  "sum_votes s = sum_list (map (\<lambda>i. unat (voteCounts s i)) (candidate_ids s))"

text \<open>
  The scan as the specification words it: track \<open>highest = 0\<close>, \<open>winner = 1\<close>; for each
  candidate in ascending id order, if its \<open>voteCount\<close> is strictly greater than
  \<open>highest\<close>, update both.
\<close>

definition scan_step :: "state \<Rightarrow> uint \<times> uint \<Rightarrow> uint \<Rightarrow> uint \<times> uint" where
  "scan_step s hw i = (if voteCounts s i > fst hw then (voteCounts s i, i) else hw)"

definition linear_scan :: "state \<Rightarrow> uint \<times> uint" where
  "linear_scan s = foldl (scan_step s) (0, 1) (candidate_ids s)"

text \<open>\<open>w\<close> is the lowest id among the candidates with the maximal vote count.\<close>

definition lowest_max :: "state \<Rightarrow> uint \<Rightarrow> bool" where
  "lowest_max s w \<longleftrightarrow>
     w \<in> set (candidate_ids s) \<and>
     (\<forall>i \<in> set (candidate_ids s). voteCounts s i \<le> voteCounts s w) \<and>
     (\<forall>i \<in> set (candidate_ids s). voteCounts s i = voteCounts s w \<longrightarrow> w \<le> i)"

text \<open>
  The trimmed name of the specification: the name without its leading and trailing
  white space (space, tab, line feed, vertical tab, form feed, carriage return).
\<close>

definition is_space :: "char \<Rightarrow> bool" where
  "is_space c \<longleftrightarrow> c \<in> set [CHR '' '', CHR 0x09, CHR 0x0A, CHR 0x0B, CHR 0x0C, CHR 0x0D]"

definition trimmed :: "string \<Rightarrow> string" where
  "trimmed name = rev (dropWhile is_space (rev (dropWhile is_space name)))"

subsection \<open>Invariants of the reachable states\<close>

text \<open>Only the ids \<open>1, ..., candidateCount\<close> carry votes.\<close>

definition votes_in_range :: "state \<Rightarrow> bool" where
  "votes_in_range s \<longleftrightarrow> (\<forall>i. voteCounts s i \<noteq> 0 \<longrightarrow> 0 < i \<and> i \<le> candidateCount s)"

text \<open>\<open>totalVotes\<close> is the sum of the vote counts, and the number of voters who have voted.\<close>

definition tally_ok :: "state \<Rightarrow> bool" where
  "tally_ok s \<longleftrightarrow> unat (totalVotes s) = sum_votes s"

definition ballots_ok :: "state \<Rightarrow> bool" where
  "ballots_ok s \<longleftrightarrow> unat (totalVotes s) = card {a. hasVoted s a}"

text \<open>Who has voted is registered, and the zero address is not registered.\<close>

definition voters_ok :: "state \<Rightarrow> bool" where
  "voters_ok s \<longleftrightarrow> (\<forall>a. hasVoted s a \<longrightarrow> registeredVoters s a) \<and> \<not> registeredVoters s 0"

text \<open>
  The \<open>CandidateAdded\<close> events of the log, in the order of their emission, are the
  candidates \<open>1, ..., candidateCount\<close> with the names stored for them.
\<close>

fun added :: "event \<Rightarrow> (uint \<times> string) list" where
  "added (CandidateAdded candidateId name now) = [(candidateId, name)]"
| "added e = []"

definition candidates_added :: "state \<Rightarrow> (uint \<times> string) list" where
  "candidates_added s = concat (map added (events s))"

definition roster_ok :: "state \<Rightarrow> bool" where
  "roster_ok s \<longleftrightarrow> candidates_added s = map (\<lambda>i. (i, candidates s i)) (candidate_ids s)"

definition invariant :: "state \<Rightarrow> bool" where
  "invariant s \<longleftrightarrow> votes_in_range s \<and> tally_ok s \<and> ballots_ok s \<and> voters_ok s \<and> roster_ok s"

subsection \<open>An example election\<close>

text \<open>
  Scenario A of the specification: the admin \<open>1\<close> deploys, registers the voters \<open>2\<close> and
  \<open>3\<close>, adds the candidates Alice and Bob and starts the voting; then \<open>2\<close> votes for
  candidate 1 and \<open>3\<close> for candidate 2.
\<close>

definition example_setup :: state where
  "example_setup =
     transact (1, 7, ToggleVoting)
       (transact (1, 6, AddCandidate ''Bob'')
          (transact (1, 5, AddCandidate ''Alice'')
             (transact (1, 4, RegisterVoter 3)
                (transact (1, 3, RegisterVoter 2) (constructor 1 0)))))"

definition example_voted :: state where
  "example_voted = transact (3, 9, Vote 2) (transact (2, 8, Vote 1) example_setup)"

section \<open>Basic facts\<close>

lemmas op_defs =
  registerVoter_def addCandidate_def toggleVoting_def transferAdmin_def vote_def
  onlyAdmin_def onlyRegisteredVoter_def hasNotVoted_def votingIsActive_def
  emit_def checked_inc_def Let_def

lemma unat_inc: "x \<noteq> uint_max \<Longrightarrow> unat (x + 1) = Suc (unat x)"
  unfolding uint_max_def by (metis add.commute max_word_wrap unatSuc)

text \<open>The function \<open>vote\<close>, with its modifiers and checked increments unfolded.\<close>

lemma vote_cases:
  "vote sender now candidateId s =
     (if \<not> registeredVoters s sender then Inl NotRegistered
      else if hasVoted s sender then Inl AlreadyVoted
      else if \<not> votingActive s then Inl VotingInactive
      else if \<not> (0 < candidateId \<and> candidateId \<le> candidateCount s) then Inl InvalidCandidate
      else if voteCounts s candidateId = uint_max then Inl (Panic 0x11)
      else if totalVotes s = uint_max then Inl (Panic 0x11)
      else Inr (s\<lparr>hasVoted := (hasVoted s)(sender := True),
                  voteCounts := (voteCounts s)(candidateId := voteCounts s candidateId + 1),
                  totalVotes := totalVotes s + 1,
                  events := events s @ [VoteCast sender candidateId now]\<rparr>))"
  by (simp add: op_defs)

lemma registerVoter_cases:
  "registerVoter sender now voter s =
     (if sender \<noteq> admin s then Inl NotAdmin
      else if registeredVoters s voter then Inl AlreadyRegistered
      else if voter = 0 then Inl InvalidVoter
      else Inr (s\<lparr>registeredVoters := (registeredVoters s)(voter := True),
                  events := events s @ [VoterRegistered voter now]\<rparr>))"
  by (simp add: op_defs)

lemma addCandidate_cases:
  "addCandidate sender now name s =
     (if sender \<noteq> admin s then Inl NotAdmin
      else if length name = 0 then Inl EmptyName
      else if 64 < length name then Inl NameTooLong
      else if candidateCount s = uint_max then Inl (Panic 0x11)
      else Inr (s\<lparr>candidateCount := candidateCount s + 1,
                  candidates := (candidates s)(candidateCount s + 1 := name),
                  events := events s @ [CandidateAdded (candidateCount s + 1) name now]\<rparr>))"
  by (simp add: op_defs)

lemma toggleVoting_cases:
  "toggleVoting sender now s =
     (if sender \<noteq> admin s then Inl NotAdmin
      else Inr (s\<lparr>votingActive := \<not> votingActive s,
                  events := events s @ [VotingStatusChanged (\<not> votingActive s) now]\<rparr>))"
  by (simp add: op_defs)

lemma transferAdmin_cases:
  "transferAdmin sender now newAdmin s =
     (if sender \<noteq> admin s then Inl NotAdmin
      else if newAdmin = 0 then Inl InvalidAdmin
      else if newAdmin = admin s then Inl SameAdmin
      else Inr (s\<lparr>admin := newAdmin,
                  events := events s @ [AdminChanged (admin s) newAdmin now]\<rparr>))"
  by (simp add: op_defs)

section \<open>The list of candidate ids\<close>

lemma unat_of_nat_le: "k \<le> unat (c :: uint) \<Longrightarrow> unat (of_nat k :: uint) = k"
  by (rule le_unat_uoi)

lemma candidate_ids_set: "set (candidate_ids s) = {i. 0 < i \<and> i \<le> candidateCount s}"
proof (intro set_eqI iffI)
  fix x assume "x \<in> set (candidate_ids s)"
  then obtain k where k: "1 \<le> k" "k \<le> unat (candidateCount s)" "x = of_nat k"
    by (auto simp: candidate_ids_def)
  then have "unat x = k" by (simp add: unat_of_nat_le)
  with k show "x \<in> {i. 0 < i \<and> i \<le> candidateCount s}"
    by (simp add: word_le_nat_alt word_less_nat_alt)
next
  fix x assume "x \<in> {i. 0 < i \<and> i \<le> candidateCount s}"
  then have "1 \<le> unat x" "unat x \<le> unat (candidateCount s)"
    by (simp_all add: word_le_nat_alt word_less_nat_alt)
  then have "unat x \<in> set [1..<Suc (unat (candidateCount s))]" by auto
  then have "of_nat (unat x) \<in> set (candidate_ids s)"
    unfolding candidate_ids_def set_map by (rule imageI)
  then show "x \<in> set (candidate_ids s)" by simp
qed

lemma candidate_ids_sorted: "sorted_wrt (<) (candidate_ids s)"
proof -
  have "sorted_wrt (\<lambda>x y. (of_nat x :: uint) < of_nat y) [1..<Suc (unat (candidateCount s))]"
  proof (rule sorted_wrt_mono_rel [of _ "(<)"])
    fix x y assume "x \<in> set [1..<Suc (unat (candidateCount s))]"
      "y \<in> set [1..<Suc (unat (candidateCount s))]" "x < y"
    then have "x \<le> unat (candidateCount s)" "y \<le> unat (candidateCount s)"
      by auto
    then have "unat (of_nat x :: uint) = x" "unat (of_nat y :: uint) = y"
      by (auto intro: unat_of_nat_le)
    with \<open>x < y\<close> show "(of_nat x :: uint) < of_nat y"
      by (simp add: word_less_nat_alt)
  next
    show "sorted_wrt (<) [1..<Suc (unat (candidateCount s))]"
      by (rule sorted_wrt_upt)
  qed
  then show ?thesis by (simp add: candidate_ids_def sorted_wrt_map)
qed

lemma candidate_ids_distinct: "distinct (candidate_ids s)"
  using candidate_ids_sorted [of s] by (simp add: strict_sorted_iff)

lemma candidate_ids_inc:
  assumes "candidateCount s \<noteq> uint_max" and "candidateCount s' = candidateCount s + 1"
  shows "candidate_ids s' = candidate_ids s @ [candidateCount s + 1]"
proof -
  have "unat (candidateCount s') = Suc (unat (candidateCount s))"
    using assms by (simp add: unat_inc)
  moreover have "(of_nat (Suc (unat (candidateCount s))) :: uint) = candidateCount s + 1"
    by simp
  ultimately show ?thesis by (simp add: candidate_ids_def)
qed

lemma candidate_ids_cong:
  "candidateCount s' = candidateCount s \<Longrightarrow> candidate_ids s' = candidate_ids s"
  by (simp add: candidate_ids_def)

lemma sum_list_bump_if:
  fixes f :: "'a \<Rightarrow> nat"
  shows "distinct xs \<Longrightarrow> sum_list (map (f(c := Suc (f c))) xs) =
     (if c \<in> set xs then Suc (sum_list (map f xs)) else sum_list (map f xs))"
  by (induction xs) auto

lemma sum_list_bump:
  fixes f :: "'a \<Rightarrow> nat"
  assumes "distinct xs" and "c \<in> set xs"
  shows "sum_list (map (f(c := Suc (f c))) xs) = Suc (sum_list (map f xs))"
  using assms by (simp add: sum_list_bump_if del: fun_upd_apply)

section \<open>Toggling the voting status\<close>

text \<open>
  Claim C7. In every state, \<open>toggleVoting\<close> called by the admin succeeds and flips
  \<open>votingActive\<close> (so an inactive election can always be activated again, and an active
  one stopped), and a second call right after it brings the flag back: after the two
  calls the state is the one before them, with the two \<open>VotingStatusChanged\<close> events
  added to the log.
\<close>

theorem toggleVoting_involution:
  assumes "sender = admin s"
  shows "toggleVoting sender t1 s =
           Inr (s\<lparr>votingActive := \<not> votingActive s,
                  events := events s @ [VotingStatusChanged (\<not> votingActive s) t1]\<rparr>)
       \<and> toggleVoting sender t2
             (s\<lparr>votingActive := \<not> votingActive s,
                events := events s @ [VotingStatusChanged (\<not> votingActive s) t1]\<rparr>) =
           Inr (s\<lparr>events := events s @ [VotingStatusChanged (\<not> votingActive s) t1,
                                          VotingStatusChanged (votingActive s) t2]\<rparr>)"
  using assms by (simp add: op_defs)

theorem toggleVoting_involution_witness:
  "(1 :: address) = admin (constructor 1 0)
   \<and> toggleVoting 1 7 (constructor 1 0) =
       Inr ((constructor 1 0)\<lparr>votingActive := True,
              events := events (constructor 1 0) @ [VotingStatusChanged True 7]\<rparr>)
   \<and> toggleVoting 1 8
         ((constructor 1 0)\<lparr>votingActive := True,
            events := events (constructor 1 0) @ [VotingStatusChanged True 7]\<rparr>) =
       Inr ((constructor 1 0)\<lparr>events := events (constructor 1 0) @
              [VotingStatusChanged True 7, VotingStatusChanged False 8]\<rparr>)"
  using toggleVoting_involution [of 1 "constructor 1 0" 7 8]
  by (simp add: constructor_def emit_def)

section \<open>The invariants hold in every reachable state\<close>

lemma le_inc: "i \<le> c \<Longrightarrow> c \<noteq> uint_max \<Longrightarrow> i \<le> c + 1 \<and> i \<noteq> c + 1"
  by (auto simp: word_le_nat_alt unat_inc)

lemma invariant_constructor: "invariant (constructor sender now)"
  by (simp add: invariant_def votes_in_range_def tally_ok_def ballots_ok_def voters_ok_def
      roster_ok_def constructor_def emit_def sum_votes_def candidate_ids_def candidates_added_def)

lemma vote_votes_in_range:
  assumes "vote sender now c s = Inr s'" and "votes_in_range s"
  shows "votes_in_range s'"
  using assms by (auto simp: vote_cases votes_in_range_def split: if_splits)

lemma vote_tally_ok:
  assumes "vote sender now c s = Inr s'" and "tally_ok s"
  shows "tally_ok s'"
proof -
  from assms(1) have c: "c \<in> set (candidate_ids s)" and v: "voteCounts s c \<noteq> uint_max"
    and t: "totalVotes s \<noteq> uint_max"
    and s': "voteCounts s' = (voteCounts s)(c := voteCounts s c + 1)"
      "totalVotes s' = totalVotes s + 1" "candidateCount s' = candidateCount s"
    by (auto simp: vote_cases candidate_ids_set split: if_splits)
  have "(\<lambda>i. unat (voteCounts s' i)) = (\<lambda>i. unat (voteCounts s i))(c := Suc (unat (voteCounts s c)))"
    using v by (auto simp: s' unat_inc)
  then have "sum_votes s' = Suc (sum_votes s)"
    using sum_list_bump [OF candidate_ids_distinct c, of "\<lambda>i. unat (voteCounts s i)"]
    by (simp add: sum_votes_def candidate_ids_cong [OF s'(3)] del: fun_upd_apply)
  with assms(2) t show ?thesis by (simp add: tally_ok_def s' unat_inc)
qed

lemma vote_ballots_ok:
  assumes "vote sender now c s = Inr s'" and "ballots_ok s"
  shows "ballots_ok s'"
proof -
  from assms(1) have n: "\<not> hasVoted s sender" and t: "totalVotes s \<noteq> uint_max"
    and s': "hasVoted s' = (hasVoted s)(sender := True)" "totalVotes s' = totalVotes s + 1"
    by (auto simp: vote_cases split: if_splits)
  have "{a. hasVoted s' a} = insert sender {a. hasVoted s a}"
    by (auto simp: s')
  moreover have "sender \<notin> {a. hasVoted s a}" using n by simp
  ultimately have "card {a. hasVoted s' a} = Suc (card {a. hasVoted s a})"
    by simp
  with assms(2) t show ?thesis by (simp add: ballots_ok_def s' unat_inc)
qed

lemma vote_voters_ok:
  assumes "vote sender now c s = Inr s'" and "voters_ok s"
  shows "voters_ok s'"
  using assms by (auto simp: vote_cases voters_ok_def split: if_splits)

lemma vote_roster_ok:
  assumes "vote sender now c s = Inr s'" and "roster_ok s"
  shows "roster_ok s'"
  using assms by (auto simp: vote_cases roster_ok_def candidates_added_def candidate_ids_def split: if_splits)

lemma addCandidate_invariant:
  assumes "addCandidate sender now name s = Inr s'" and "invariant s"
  shows "invariant s'"
proof -
  from assms(1) have m: "candidateCount s \<noteq> uint_max"
    and s': "s' = s\<lparr>candidateCount := candidateCount s + 1,
                  candidates := (candidates s)(candidateCount s + 1 := name),
                  events := events s @ [CandidateAdded (candidateCount s + 1) name now]\<rparr>"
    by (auto simp: addCandidate_cases split: if_splits)
  have ids: "candidate_ids s' = candidate_ids s @ [candidateCount s + 1]"
    by (rule candidate_ids_inc [OF m]) (simp add: s')
  have new: "\<not> candidateCount s + 1 \<le> candidateCount s"
    using m by (simp add: word_le_nat_alt unat_inc)
  from assms(2) have inv: "votes_in_range s" "tally_ok s" "ballots_ok s" "voters_ok s" "roster_ok s"
    by (simp_all add: invariant_def)
  from inv(1) new have zero: "voteCounts s (candidateCount s + 1) = 0"
    unfolding votes_in_range_def by blast
  have 1: "votes_in_range s'"
    using inv(1) m by (auto simp: votes_in_range_def s' dest: le_inc)
  have 2: "tally_ok s'"
    using inv(2) zero by (simp add: tally_ok_def sum_votes_def ids) (simp add: s')
  have 3: "ballots_ok s'" using inv(3) by (simp add: ballots_ok_def s')
  have 4: "voters_ok s'" using inv(4) by (simp add: voters_ok_def s')
  have "\<forall>i \<in> set (candidate_ids s). i \<noteq> candidateCount s + 1"
    using new by (auto simp: candidate_ids_set)
  then have "map (\<lambda>i. (i, candidates s' i)) (candidate_ids s) = map (\<lambda>i. (i, candidates s i)) (candidate_ids s)"
    by (simp add: s')
  then have 5: "roster_ok s'"
    using inv(5) by (simp add: roster_ok_def ids candidates_added_def) (simp add: s')
  from 1 2 3 4 5 show ?thesis by (simp add: invariant_def)
qed

lemma registerVoter_invariant:
  assumes "registerVoter sender now voter s = Inr s'" and "invariant s"
  shows "invariant s'"
  using assms
  by (auto simp: registerVoter_cases invariant_def votes_in_range_def tally_ok_def ballots_ok_def
      voters_ok_def roster_ok_def sum_votes_def candidate_ids_def candidates_added_def
      split: if_splits)

lemma toggleVoting_invariant:
  assumes "toggleVoting sender now s = Inr s'" and "invariant s"
  shows "invariant s'"
  using assms
  by (auto simp: toggleVoting_cases invariant_def votes_in_range_def tally_ok_def ballots_ok_def
      voters_ok_def roster_ok_def sum_votes_def candidate_ids_def candidates_added_def
      split: if_splits)

lemma transferAdmin_invariant:
  assumes "transferAdmin sender now newAdmin s = Inr s'" and "invariant s"
  shows "invariant s'"
  using assms
  by (auto simp: transferAdmin_cases invariant_def votes_in_range_def tally_ok_def ballots_ok_def
      voters_ok_def roster_ok_def sum_votes_def candidate_ids_def candidates_added_def
      split: if_splits)

lemma vote_invariant:
  assumes "vote sender now c s = Inr s'" and "invariant s"
  shows "invariant s'"
  using assms unfolding invariant_def
  by (auto intro: vote_votes_in_range vote_tally_ok vote_ballots_ok vote_voters_ok vote_roster_ok)

lemma execute_invariant:
  assumes "execute tx s = Inr s'" and "invariant s"
  shows "invariant s'"
proof -
  obtain sender now c where tx: "tx = (sender, now, c)" by (cases tx)
  show ?thesis using assms unfolding tx
    by (cases c) (auto intro: registerVoter_invariant addCandidate_invariant
        toggleVoting_invariant transferAdmin_invariant vote_invariant)
qed

lemma transact_invariant: "invariant s \<Longrightarrow> invariant (transact tx s)"
  by (auto simp: transact_def split: sum.splits intro: execute_invariant)

lemma reachable_invariant: "reachable s \<Longrightarrow> invariant s"
  by (induction rule: reachable.induct) (auto intro: invariant_constructor transact_invariant)

section \<open>No counter overflows in a reachable state\<close>

lemma total_bound:
  assumes "ballots_ok s" shows "unat (totalVotes s) \<le> 2 ^ 160"
proof -
  have "card {a. hasVoted s a} \<le> card (UNIV :: address set)"
    by (rule card_mono) simp_all
  also have "\<dots> = 2 ^ 160" by (simp add: card_word)
  finally show ?thesis using assms by (simp add: ballots_ok_def)
qed

lemma unat_uint_max: "unat uint_max = 2 ^ 256 - 1"
  unfolding uint_max_def by (simp add: unsigned_minus_1_eq_mask mask_eq_exp_minus_1)

lemma no_overflow:
  assumes "invariant s" and "c \<in> set (candidate_ids s)"
  shows "totalVotes s \<noteq> uint_max \<and> voteCounts s c \<noteq> uint_max"
proof -
  from assms(1) have b: "ballots_ok s" and t: "tally_ok s" by (simp_all add: invariant_def)
  have "unat (voteCounts s c) \<le> sum_votes s"
    unfolding sum_votes_def using assms(2) by (intro member_le_sum_list) auto
  also have "\<dots> = unat (totalVotes s)" using t by (simp add: tally_ok_def)
  also have "\<dots> \<le> 2 ^ 160" by (rule total_bound [OF b])
  finally have 1: "unat (voteCounts s c) \<le> 2 ^ 160" .
  have 2: "unat (totalVotes s) \<le> 2 ^ 160" by (rule total_bound [OF b])
  have "(2::nat) ^ 160 < 2 ^ 256 - 1" by simp
  with 1 2 have "unat (voteCounts s c) \<noteq> unat uint_max" "unat (totalVotes s) \<noteq> unat uint_max"
    by (simp_all add: unat_uint_max)
  then show ?thesis by auto
qed

section \<open>The example election, evaluated\<close>

lemmas cases_defs = vote_cases registerVoter_cases addCandidate_cases toggleVoting_cases
  transferAdmin_cases

lemma example_setup_eq:
  "example_setup =
     \<lparr>admin = 1,
      registeredVoters = (\<lambda>_. False)(2 := True, 3 := True),
      hasVoted = (\<lambda>_. False),
      voteCounts = (\<lambda>_. 0),
      candidates = (\<lambda>_. [])(1 := ''Alice'', 2 := ''Bob''),
      candidateCount = 2,
      totalVotes = 0,
      votingActive = True,
      events = [AdminChanged 0 1 0, VotingStatusChanged False 0, VoterRegistered 2 3,
                VoterRegistered 3 4, CandidateAdded 1 ''Alice'' 5, CandidateAdded 2 ''Bob'' 6,
                VotingStatusChanged True 7]\<rparr>"
  by (simp add: example_setup_def transact_def cases_defs constructor_def emit_def uint_max_def)

lemma example_voted_eq:
  "example_voted =
     \<lparr>admin = 1,
      registeredVoters = (\<lambda>_. False)(2 := True, 3 := True),
      hasVoted = (\<lambda>_. False)(2 := True, 3 := True),
      voteCounts = (\<lambda>_. 0)(1 := 1, 2 := 1),
      candidates = (\<lambda>_. [])(1 := ''Alice'', 2 := ''Bob''),
      candidateCount = 2,
      totalVotes = 2,
      votingActive = True,
      events = [AdminChanged 0 1 0, VotingStatusChanged False 0, VoterRegistered 2 3,
                VoterRegistered 3 4, CandidateAdded 1 ''Alice'' 5, CandidateAdded 2 ''Bob'' 6,
                VotingStatusChanged True 7, VoteCast 2 1 8, VoteCast 3 2 9]\<rparr>"
  by (simp add: example_voted_def example_setup_eq transact_def cases_defs uint_max_def)

lemma example_setup_reachable: "reachable example_setup"
  unfolding example_setup_def by (intro reachable.intros)

lemma example_voted_reachable: "reachable example_voted"
  unfolding example_voted_def by (intro reachable.intros example_setup_reachable)

lemma example_ids: "candidate_ids example_voted = [1, 2]" "candidate_ids example_setup = [1, 2]"
  by (simp_all add: candidate_ids_def example_voted_eq example_setup_eq upt_rec)

section \<open>Casting a vote\<close>

text \<open>
  Claim C1. In every state and for every caller, \<open>vote\<close> checks, in this order, that the
  caller is registered, that the caller has not voted, that voting is active and that
  \<open>0 < candidateId \<le> candidateCount\<close>. The first check that fails decides the revert
  message, whatever the later ones would say; the four messages differ; a reverted call
  leaves the state as it was. A call that succeeds has passed the four checks and yields
  the state in which \<open>hasVoted[msg.sender]\<close> is set, \<open>voteCounts[candidateId]\<close> and
  \<open>totalVotes\<close> are one higher (as numbers, without wrap-around) and one \<open>VoteCast\<close>
  event is appended: the four effects come together in the one resulting state. When the
  four checks pass the call does succeed, in every reachable state and in every state
  whose two counters are below the largest \<open>uint\<close>.
\<close>

theorem vote_checks_in_order:
  "(\<not> registeredVoters s sender \<longrightarrow> vote sender now c s = Inl NotRegistered)
 \<and> (registeredVoters s sender \<and> hasVoted s sender \<longrightarrow> vote sender now c s = Inl AlreadyVoted)
 \<and> (registeredVoters s sender \<and> \<not> hasVoted s sender \<and> \<not> votingActive s
       \<longrightarrow> vote sender now c s = Inl VotingInactive)
 \<and> (registeredVoters s sender \<and> \<not> hasVoted s sender \<and> votingActive s
       \<and> \<not> (0 < c \<and> c \<le> candidateCount s)
       \<longrightarrow> vote sender now c s = Inl InvalidCandidate)
 \<and> distinct [NotRegistered, AlreadyVoted, VotingInactive, InvalidCandidate]
 \<and> (\<forall>e. vote sender now c s = Inl e \<longrightarrow> transact (sender, now, Vote c) s = s)
 \<and> (\<forall>s'. vote sender now c s = Inr s' \<longrightarrow>
        registeredVoters s sender \<and> \<not> hasVoted s sender \<and> votingActive s
        \<and> 0 < c \<and> c \<le> candidateCount s
        \<and> s' = s\<lparr>hasVoted := (hasVoted s)(sender := True),
                  voteCounts := (voteCounts s)(c := voteCounts s c + 1),
                  totalVotes := totalVotes s + 1,
                  events := events s @ [VoteCast sender c now]\<rparr>
        \<and> unat (voteCounts s' c) = unat (voteCounts s c) + 1
        \<and> unat (totalVotes s') = unat (totalVotes s) + 1
        \<and> transact (sender, now, Vote c) s = s')
 \<and> (registeredVoters s sender \<and> \<not> hasVoted s sender \<and> votingActive s
       \<and> 0 < c \<and> c \<le> candidateCount s
       \<and> (reachable s \<or> voteCounts s c \<noteq> uint_max \<and> totalVotes s \<noteq> uint_max)
       \<longrightarrow> (\<exists>s'. vote sender now c s = Inr s'))"
proof -
  have 1: "\<not> registeredVoters s sender \<longrightarrow> vote sender now c s = Inl NotRegistered"
    by (simp add: vote_cases)
  have 2: "registeredVoters s sender \<and> hasVoted s sender
             \<longrightarrow> vote sender now c s = Inl AlreadyVoted"
    by (simp add: vote_cases)
  have 3: "registeredVoters s sender \<and> \<not> hasVoted s sender \<and> \<not> votingActive s
             \<longrightarrow> vote sender now c s = Inl VotingInactive"
    by (simp add: vote_cases)
  have 4: "registeredVoters s sender \<and> \<not> hasVoted s sender \<and> votingActive s
             \<and> \<not> (0 < c \<and> c \<le> candidateCount s)
             \<longrightarrow> vote sender now c s = Inl InvalidCandidate"
    by (simp add: vote_cases)
  have 5: "distinct [NotRegistered, AlreadyVoted, VotingInactive, InvalidCandidate]"
    by simp
  have 6: "\<forall>e. vote sender now c s = Inl e \<longrightarrow> transact (sender, now, Vote c) s = s"
    by (simp add: transact_def)
  have 7: "\<forall>s'. vote sender now c s = Inr s' \<longrightarrow>
        registeredVoters s sender \<and> \<not> hasVoted s sender \<and> votingActive s
        \<and> 0 < c \<and> c \<le> candidateCount s
        \<and> s' = s\<lparr>hasVoted := (hasVoted s)(sender := True),
                  voteCounts := (voteCounts s)(c := voteCounts s c + 1),
                  totalVotes := totalVotes s + 1,
                  events := events s @ [VoteCast sender c now]\<rparr>
        \<and> unat (voteCounts s' c) = unat (voteCounts s c) + 1
        \<and> unat (totalVotes s') = unat (totalVotes s) + 1
        \<and> transact (sender, now, Vote c) s = s'"
    by (auto simp: vote_cases transact_def unat_inc split: if_splits)
  have 8: "registeredVoters s sender \<and> \<not> hasVoted s sender \<and> votingActive s
       \<and> 0 < c \<and> c \<le> candidateCount s
       \<and> (reachable s \<or> voteCounts s c \<noteq> uint_max \<and> totalVotes s \<noteq> uint_max)
       \<longrightarrow> (\<exists>s'. vote sender now c s = Inr s')"
  proof (intro impI, elim conjE)
    assume p: "registeredVoters s sender" "\<not> hasVoted s sender" "votingActive s"
      "0 < c" "c \<le> candidateCount s"
      and r: "reachable s \<or> voteCounts s c \<noteq> uint_max \<and> totalVotes s \<noteq> uint_max"
    from p have "c \<in> set (candidate_ids s)" by (simp add: candidate_ids_set)
    with r have "voteCounts s c \<noteq> uint_max \<and> totalVotes s \<noteq> uint_max"
      using no_overflow reachable_invariant by blast
    with p show "\<exists>s'. vote sender now c s = Inr s'" by (simp add: vote_cases)
  qed
  from 1 2 3 4 5 6 7 8 show ?thesis by (intro conjI)
qed

theorem vote_checks_in_order_witness:
  "reachable example_setup
   \<and> registeredVoters example_setup 2 \<and> \<not> hasVoted example_setup 2 \<and> votingActive example_setup
   \<and> (0 :: uint) < 1 \<and> 1 \<le> candidateCount example_setup
   \<and> (\<exists>s'. vote 2 8 1 example_setup = Inr s'
          \<and> hasVoted s' 2 \<and> voteCounts s' 1 = 1 \<and> totalVotes s' = 1
          \<and> events s' = events example_setup @ [VoteCast 2 1 8])
   \<and> vote 4 8 1 example_setup = Inl NotRegistered
   \<and> vote 2 8 3 example_setup = Inl InvalidCandidate
   \<and> vote 2 8 1 example_voted = Inl AlreadyVoted"
proof -
  have p: "registeredVoters example_setup 2" "\<not> hasVoted example_setup 2"
    "votingActive example_setup" "(0 :: uint) < 1" "1 \<le> candidateCount example_setup"
    by (simp_all add: example_setup_eq)
  have q: "\<not> registeredVoters example_setup 4" "\<not> (3 \<le> candidateCount example_setup)"
    "registeredVoters example_voted 2" "hasVoted example_voted 2"
    by (simp_all add: example_setup_eq example_voted_eq)
  note w = vote_checks_in_order [of example_setup 2 8 1]
  from w p example_setup_reachable obtain s' where s': "vote 2 8 1 example_setup = Inr s'"
    by blast
  with w have "s' = example_setup\<lparr>hasVoted := (hasVoted example_setup)(2 := True),
                  voteCounts := (voteCounts example_setup)(1 := voteCounts example_setup 1 + 1),
                  totalVotes := totalVotes example_setup + 1,
                  events := events example_setup @ [VoteCast 2 1 8]\<rparr>"
    by blast
  then have "hasVoted s' 2 \<and> voteCounts s' 1 = 1 \<and> totalVotes s' = 1
          \<and> events s' = events example_setup @ [VoteCast 2 1 8]"
    by (simp add: example_setup_eq)
  moreover have "vote 4 8 1 example_setup = Inl NotRegistered"
    using vote_checks_in_order [of example_setup 4 8 1] q by blast
  moreover have "vote 2 8 3 example_setup = Inl InvalidCandidate"
    using vote_checks_in_order [of example_setup 2 8 3] p q by blast
  moreover have "vote 2 8 1 example_voted = Inl AlreadyVoted"
    using vote_checks_in_order [of example_voted 2 8 1] q by blast
  ultimately show ?thesis using p s' example_setup_reachable by blast
qed

section \<open>The total is the sum of the vote counts\<close>

text \<open>
  Claim C2. In every state reached from the deployed contract by any sequence of
  transactions, reverted ones included, \<open>totalVotes\<close> equals the sum of \<open>voteCounts\<close> over
  the candidates \<open>1, ..., candidateCount\<close>; the sum is taken in the natural numbers.
\<close>

theorem tally_invariant:
  assumes "reachable s"
  shows "unat (totalVotes s) = sum_votes s"
  using reachable_invariant [OF assms] by (simp add: invariant_def tally_ok_def)

theorem tally_invariant_witness:
  "reachable example_voted \<and> totalVotes example_voted = 2
   \<and> unat (totalVotes example_voted) = sum_votes example_voted"
  using tally_invariant [OF example_voted_reachable] example_voted_reachable
  by (simp add: example_voted_eq)

section \<open>What a vote leaves alone\<close>

text \<open>
  Claim C10. A successful \<open>vote\<close> by \<open>sender\<close> for \<open>c\<close> changes nothing but
  \<open>hasVoted[sender]\<close>, \<open>voteCounts[c]\<close>, \<open>totalVotes\<close> and the log: the admin, the voting
  status, \<open>candidateCount\<close>, all candidate names, all registrations, the vote counts of the
  other candidates and the voted flags of the other addresses are as before.
\<close>

theorem vote_frame:
  assumes "vote sender now c s = Inr s'"
  shows "admin s' = admin s \<and> votingActive s' = votingActive s
       \<and> candidateCount s' = candidateCount s \<and> candidates s' = candidates s
       \<and> registeredVoters s' = registeredVoters s
       \<and> (\<forall>i. i \<noteq> c \<longrightarrow> voteCounts s' i = voteCounts s i)
       \<and> (\<forall>a. a \<noteq> sender \<longrightarrow> hasVoted s' a = hasVoted s a)"
  using assms by (auto simp: vote_cases split: if_splits)

theorem vote_frame_witness:
  "vote 2 8 1 example_setup = Inr (transact (2, 8, Vote 1) example_setup)
   \<and> admin (transact (2, 8, Vote 1) example_setup) = 1
   \<and> candidateCount (transact (2, 8, Vote 1) example_setup) = 2
   \<and> voteCounts (transact (2, 8, Vote 1) example_setup) 2 = 0
   \<and> \<not> hasVoted (transact (2, 8, Vote 1) example_setup) 3"
proof -
  have v: "vote 2 8 1 example_setup = Inr (transact (2, 8, Vote 1) example_setup)"
    by (simp add: transact_def vote_cases example_setup_eq uint_max_def)
  have "admin example_setup = 1" "candidateCount example_setup = 2"
    "voteCounts example_setup 2 = 0" "\<not> hasVoted example_setup 3"
    by (simp_all add: example_setup_eq)
  with vote_frame [OF v] v show ?thesis by simp
qed

section \<open>Registering voters\<close>

text \<open>
  Claim C5. In a reachable state, \<open>registerVoter\<close> called by the admin reverts with
  "Invalid voter address" for the zero address and with "Voter is already registered" for
  a registered one (the two cases exclude each other, since the zero address is never
  registered); for any other address it succeeds, sets the registration flag and logs the
  event, and the address has not voted. A second call for the same non-zero address,
  whatever the first one did, reverts with "Voter is already registered" and changes
  nothing.
\<close>

theorem registerVoter_outcomes:
  assumes "reachable s" and "sender = admin s"
  shows "(voter = 0 \<longrightarrow> registerVoter sender now voter s = Inl InvalidVoter)
       \<and> (registeredVoters s voter \<longrightarrow> registerVoter sender now voter s = Inl AlreadyRegistered)
       \<and> (voter \<noteq> 0 \<and> \<not> registeredVoters s voter \<longrightarrow>
            registerVoter sender now voter s =
              Inr (s\<lparr>registeredVoters := (registeredVoters s)(voter := True),
                     events := events s @ [VoterRegistered voter now]\<rparr>)
            \<and> \<not> hasVoted s voter)
       \<and> (voter \<noteq> 0 \<longrightarrow>
            registerVoter sender now' voter (transact (sender, now, RegisterVoter voter) s)
              = Inl AlreadyRegistered
            \<and> transact (sender, now', RegisterVoter voter)
                (transact (sender, now, RegisterVoter voter) s)
              = transact (sender, now, RegisterVoter voter) s)"
proof -
  from assms(1) have v: "voters_ok s"
    using reachable_invariant by (simp add: invariant_def)
  then have z: "\<not> registeredVoters s 0" and h: "\<And>a. \<not> registeredVoters s a \<Longrightarrow> \<not> hasVoted s a"
    by (auto simp: voters_ok_def)
  have 1: "voter = 0 \<longrightarrow> registerVoter sender now voter s = Inl InvalidVoter"
    using z assms(2) by (simp add: registerVoter_cases)
  have 2: "registeredVoters s voter \<longrightarrow> registerVoter sender now voter s = Inl AlreadyRegistered"
    using assms(2) by (simp add: registerVoter_cases)
  have 3: "voter \<noteq> 0 \<and> \<not> registeredVoters s voter \<longrightarrow>
            registerVoter sender now voter s =
              Inr (s\<lparr>registeredVoters := (registeredVoters s)(voter := True),
                     events := events s @ [VoterRegistered voter now]\<rparr>)
            \<and> \<not> hasVoted s voter"
    using assms(2) h by (simp add: registerVoter_cases)
  have 4: "voter \<noteq> 0 \<longrightarrow>
            registerVoter sender now' voter (transact (sender, now, RegisterVoter voter) s)
              = Inl AlreadyRegistered
            \<and> transact (sender, now', RegisterVoter voter)
                (transact (sender, now, RegisterVoter voter) s)
              = transact (sender, now, RegisterVoter voter) s"
    using assms(2) by (simp add: registerVoter_cases transact_def)
  from 1 2 3 4 show ?thesis by (intro conjI)
qed

theorem registerVoter_outcomes_witness:
  "reachable example_setup \<and> (1 :: address) = admin example_setup
   \<and> registerVoter 1 10 0 example_setup = Inl InvalidVoter
   \<and> registerVoter 1 10 2 example_setup = Inl AlreadyRegistered
   \<and> registerVoter 1 10 4 example_setup =
       Inr (example_setup\<lparr>registeredVoters := (registeredVoters example_setup)(4 := True),
              events := events example_setup @ [VoterRegistered 4 10]\<rparr>)
   \<and> registerVoter 1 11 4 (transact (1, 10, RegisterVoter 4) example_setup)
       = Inl AlreadyRegistered"
proof -
  have a: "(1 :: address) = admin example_setup" by (simp add: example_setup_eq)
  have b: "registeredVoters example_setup 2" "\<not> registeredVoters example_setup 4"
    by (simp_all add: example_setup_eq)
  note w = registerVoter_outcomes [OF example_setup_reachable a]
  from w [of 0 10] have "registerVoter 1 10 0 example_setup = Inl InvalidVoter" by simp
  moreover from w [of 2 10] b have "registerVoter 1 10 2 example_setup = Inl AlreadyRegistered"
    by simp
  moreover from w [of 4 10 11] b have "registerVoter 1 10 4 example_setup =
       Inr (example_setup\<lparr>registeredVoters := (registeredVoters example_setup)(4 := True),
              events := events example_setup @ [VoterRegistered 4 10]\<rparr>)"
    "registerVoter 1 11 4 (transact (1, 10, RegisterVoter 4) example_setup)
       = Inl AlreadyRegistered"
    by simp_all
  ultimately show ?thesis using a example_setup_reachable by simp
qed

section \<open>Transferring the admin role\<close>

lemma admin_only_denied:
  assumes "admin_only c" and "sender \<noteq> admin s"
  shows "execute (sender, now, c) s = Inl NotAdmin"
  using assms by (cases c) (simp_all add: cases_defs)

lemma admin_only_admitted:
  assumes "admin_only c"
  shows "execute (admin s, now, c) s \<noteq> Inl NotAdmin"
  using assms by (cases c) (simp_all add: cases_defs)

lemma admin_only_succeeds:
  assumes "admin_only c"
  shows "(\<exists>s'. execute (admin s, now, c) s = Inr s') \<longleftrightarrow> body_checks c s"
  using assms by (cases c) (auto simp: cases_defs)

text \<open>
  Claim C6. \<open>transferAdmin\<close> called by the admin reverts with "Invalid admin address" for
  the zero address, with "New admin cannot be the same as current admin" for the admin's
  own address, and otherwise succeeds: the new address is the admin and an
  \<open>AdminChanged\<close> event is logged. In the state after a successful transfer, every call of
  an \<open>onlyAdmin\<close> function by the old admin reverts with "Only admin can perform this
  action" and changes nothing, while the same call by the new admin passes that check and
  succeeds exactly when the checks of the function's body pass; in particular
  \<open>addCandidate\<close> with a name of 1 to 64 bytes fails for the old admin and succeeds for
  the new one (\<open>candidateCount\<close> being below the largest \<open>uint\<close>).
\<close>

theorem transferAdmin_outcomes:
  assumes "sender = admin s"
  shows "(newAdmin = 0 \<longrightarrow> transferAdmin sender now newAdmin s = Inl InvalidAdmin)
       \<and> (newAdmin \<noteq> 0 \<and> newAdmin = admin s
            \<longrightarrow> transferAdmin sender now newAdmin s = Inl SameAdmin)
       \<and> (newAdmin \<noteq> 0 \<and> newAdmin \<noteq> admin s \<longrightarrow>
            (\<exists>s'. transferAdmin sender now newAdmin s = Inr s'
               \<and> s' = s\<lparr>admin := newAdmin,
                         events := events s @ [AdminChanged sender newAdmin now]\<rparr>
               \<and> (\<forall>c now'. admin_only c \<longrightarrow>
                     execute (sender, now', c) s' = Inl NotAdmin
                     \<and> transact (sender, now', c) s' = s'
                     \<and> execute (newAdmin, now', c) s' \<noteq> Inl NotAdmin
                     \<and> ((\<exists>s''. execute (newAdmin, now', c) s' = Inr s'')
                          \<longleftrightarrow> body_checks c s'))
               \<and> (\<forall>name now'. 0 < length name \<and> length name \<le> 64
                     \<and> candidateCount s \<noteq> uint_max \<longrightarrow>
                     addCandidate sender now' name s' = Inl NotAdmin
                     \<and> addCandidate newAdmin now' name s' =
                         Inr (s'\<lparr>candidateCount := candidateCount s + 1,
                                 candidates := (candidates s)(candidateCount s + 1 := name),
                                 events := events s' @
                                   [CandidateAdded (candidateCount s + 1) name now']\<rparr>))))"
proof -
  have 1: "newAdmin = 0 \<longrightarrow> transferAdmin sender now newAdmin s = Inl InvalidAdmin"
    using assms by (simp add: transferAdmin_cases)
  have 2: "newAdmin \<noteq> 0 \<and> newAdmin = admin s
            \<longrightarrow> transferAdmin sender now newAdmin s = Inl SameAdmin"
    using assms by (simp add: transferAdmin_cases)
  have 3: "newAdmin \<noteq> 0 \<and> newAdmin \<noteq> admin s \<longrightarrow>
            (\<exists>s'. transferAdmin sender now newAdmin s = Inr s'
               \<and> s' = s\<lparr>admin := newAdmin,
                         events := events s @ [AdminChanged sender newAdmin now]\<rparr>
               \<and> (\<forall>c now'. admin_only c \<longrightarrow>
                     execute (sender, now', c) s' = Inl NotAdmin
                     \<and> transact (sender, now', c) s' = s'
                     \<and> execute (newAdmin, now', c) s' \<noteq> Inl NotAdmin
                     \<and> ((\<exists>s''. execute (newAdmin, now', c) s' = Inr s'')
                          \<longleftrightarrow> body_checks c s'))
               \<and> (\<forall>name now'. 0 < length name \<and> length name \<le> 64
                     \<and> candidateCount s \<noteq> uint_max \<longrightarrow>
                     addCandidate sender now' name s' = Inl NotAdmin
                     \<and> addCandidate newAdmin now' name s' =
                         Inr (s'\<lparr>candidateCount := candidateCount s + 1,
                                 candidates := (candidates s)(candidateCount s + 1 := name),
                                 events := events s' @
                                   [CandidateAdded (candidateCount s + 1) name now']\<rparr>)))"
  proof (intro impI, elim conjE)
    assume n: "newAdmin \<noteq> 0" "newAdmin \<noteq> admin s"
    define s' where "s' = s\<lparr>admin := newAdmin,
                         events := events s @ [AdminChanged sender newAdmin now]\<rparr>"
    have a: "admin s' = newAdmin" "sender \<noteq> admin s'" "candidateCount s' = candidateCount s"
      "candidates s' = candidates s"
      using n assms by (simp_all add: s'_def)
    have t: "transferAdmin sender now newAdmin s = Inr s'"
      using n assms by (simp add: transferAdmin_cases s'_def)
    have g: "\<forall>c now'. admin_only c \<longrightarrow>
                     execute (sender, now', c) s' = Inl NotAdmin
                     \<and> transact (sender, now', c) s' = s'
                     \<and> execute (newAdmin, now', c) s' \<noteq> Inl NotAdmin
                     \<and> ((\<exists>s''. execute (newAdmin, now', c) s' = Inr s'')
                          \<longleftrightarrow> body_checks c s')"
      using admin_only_denied [OF _ a(2)] admin_only_admitted [of _ s']
        admin_only_succeeds [of _ s'] a(1)
      by (simp add: transact_def)
    have c: "\<forall>name now'. 0 < length name \<and> length name \<le> 64
                     \<and> candidateCount s \<noteq> uint_max \<longrightarrow>
                     addCandidate sender now' name s' = Inl NotAdmin
                     \<and> addCandidate newAdmin now' name s' =
                         Inr (s'\<lparr>candidateCount := candidateCount s + 1,
                                 candidates := (candidates s)(candidateCount s + 1 := name),
                                 events := events s' @
                                   [CandidateAdded (candidateCount s + 1) name now']\<rparr>)"
      using a by (simp add: addCandidate_cases)
    from t g c show "\<exists>s'. transferAdmin sender now newAdmin s = Inr s'
               \<and> s' = s\<lparr>admin := newAdmin,
                         events := events s @ [AdminChanged sender newAdmin now]\<rparr>
               \<and> (\<forall>c now'. admin_only c \<longrightarrow>
                     execute (sender, now', c) s' = Inl NotAdmin
                     \<and> transact (sender, now', c) s' = s'
                     \<and> execute (newAdmin, now', c) s' \<noteq> Inl NotAdmin
                     \<and> ((\<exists>s''. execute (newAdmin, now', c) s' = Inr s'')
                          \<longleftrightarrow> body_checks c s'))
               \<and> (\<forall>name now'. 0 < length name \<and> length name \<le> 64
                     \<and> candidateCount s \<noteq> uint_max \<longrightarrow>
                     addCandidate sender now' name s' = Inl NotAdmin
                     \<and> addCandidate newAdmin now' name s' =
                         Inr (s'\<lparr>candidateCount := candidateCount s + 1,
                                 candidates := (candidates s)(candidateCount s + 1 := name),
                                 events := events s' @
                                   [CandidateAdded (candidateCount s + 1) name now']\<rparr>))"
      unfolding s'_def [symmetric] by blast
  qed
  from 1 2 3 show ?thesis by (intro conjI)
qed

theorem transferAdmin_outcomes_witness:
  "(1 :: address) = admin example_setup
   \<and> transferAdmin 1 10 0 example_setup = Inl InvalidAdmin
   \<and> transferAdmin 1 10 1 example_setup = Inl SameAdmin
   \<and> (\<exists>s'. transferAdmin 1 10 9 example_setup = Inr s' \<and> admin s' = 9
          \<and> addCandidate 1 11 ''Carol'' s' = Inl NotAdmin
          \<and> transact (1, 11, AddCandidate ''Carol'') s' = s'
          \<and> (\<exists>s''. addCandidate 9 11 ''Carol'' s' = Inr s'' \<and> candidateCount s'' = 3
                 \<and> candidates s'' 3 = ''Carol''))"
proof -
  have a: "(1 :: address) = admin example_setup" by (simp add: example_setup_eq)
  have m: "candidateCount example_setup \<noteq> uint_max" "candidateCount example_setup + 1 = 3"
    by (simp_all add: example_setup_eq uint_max_def)
  note w = transferAdmin_outcomes [OF a]
  have 1: "transferAdmin 1 10 0 example_setup = Inl InvalidAdmin"
    using w [of 0 10] by simp
  have 2: "transferAdmin 1 10 1 example_setup = Inl SameAdmin"
    using w [of 1 10] a by simp
  from w [of 9 10] a obtain s' where s': "transferAdmin 1 10 9 example_setup = Inr s'"
      "s' = example_setup\<lparr>admin := 9,
              events := events example_setup @ [AdminChanged 1 9 10]\<rparr>"
    and g: "\<forall>c now'. admin_only c \<longrightarrow>
              execute (1, now', c) s' = Inl NotAdmin \<and> transact (1, now', c) s' = s'"
    and c: "\<forall>name now'. 0 < length name \<and> length name \<le> 64
              \<and> candidateCount example_setup \<noteq> uint_max \<longrightarrow>
              addCandidate 9 now' name s' =
                Inr (s'\<lparr>candidateCount := candidateCount example_setup + 1,
                        candidates := (candidates example_setup)
                          (candidateCount example_setup + 1 := name),
                        events := events s' @
                          [CandidateAdded (candidateCount example_setup + 1) name now']\<rparr>)"
    by auto
  from g have 3: "addCandidate 1 11 ''Carol'' s' = Inl NotAdmin"
    "transact (1, 11, AddCandidate ''Carol'') s' = s'"
    using admin_only.simps(3) [of "''Carol''"] execute.simps(2) [of 1 11 "''Carol''" s']
    by metis+
  from c m have 4: "\<exists>s''. addCandidate 9 11 ''Carol'' s' = Inr s'' \<and> candidateCount s'' = 3
                 \<and> candidates s'' 3 = ''Carol''"
    by simp
  have 5: "admin s' = 9" by (simp add: s'(2))
  from a 1 2 s'(1) 3 4 5 show ?thesis by blast
qed

section \<open>The voted flag is set once and for all\<close>

lemma transact_hasVoted_mono:
  assumes "hasVoted s v" shows "hasVoted (transact tx s) v"
proof -
  obtain sender now c where tx: "tx = (sender, now, c)" by (cases tx)
  show ?thesis using assms unfolding tx
    by (cases c) (auto simp: transact_def cases_defs)
qed

lemma transact_hasVoted_cause:
  assumes "\<not> hasVoted s v" and "hasVoted (transact tx s) v"
  shows "\<exists>now c. tx = (v, now, Vote c) \<and> execute tx s = Inr (transact tx s)"
proof -
  obtain sender now c where tx: "tx = (sender, now, c)" by (cases tx)
  show ?thesis using assms unfolding tx
    by (cases c) (auto simp: transact_def cases_defs split: if_splits)
qed

lemma history_Cons: "\<exists>ss. history s txs = s # ss"
  by (cases txs) simp_all

lemma rises_voted:
  "hasVoted s v \<Longrightarrow> rises (map (\<lambda>s. hasVoted s v) (history s txs)) = 0"
proof (induction txs arbitrary: s)
  case Nil
  then show ?case by simp
next
  case (Cons tx txs)
  obtain ss where ss: "history (transact tx s) txs = transact tx s # ss"
    using history_Cons by blast
  from Cons.prems have "hasVoted (transact tx s) v" by (rule transact_hasVoted_mono)
  with Cons.IH [of "transact tx s"] Cons.prems show ?case by (simp add: ss)
qed

lemma rises_at_most_once:
  "rises (map (\<lambda>s. hasVoted s v) (history s txs)) \<le> 1"
proof (induction txs arbitrary: s)
  case Nil
  then show ?case by simp
next
  case (Cons tx txs)
  obtain ss where ss: "history (transact tx s) txs = transact tx s # ss"
    using history_Cons by blast
  show ?case
  proof (cases "hasVoted (transact tx s) v")
    case True
    then have "rises (map (\<lambda>s. hasVoted s v) (history (transact tx s) txs)) = 0"
      by (rule rises_voted)
    then show ?thesis by (simp add: ss)
  next
    case False
    with Cons.IH [of "transact tx s"] show ?thesis by (simp add: ss)
  qed
qed

lemma history_hasVoted:
  "hasVoted s v \<Longrightarrow> s' \<in> set (history s txs) \<Longrightarrow> hasVoted s' v"
proof (induction txs arbitrary: s)
  case Nil
  then show ?case by simp
next
  case (Cons tx txs)
  from Cons.prems(1) have "hasVoted (transact tx s) v" by (rule transact_hasVoted_mono)
  with Cons show ?case by (cases "s' = s") simp_all
qed

text \<open>
  Claim C8. Along any sequence of transactions from the deployed contract, the flag
  \<open>hasVoted[v]\<close> goes from false to true at most once. In any state, a transaction keeps
  a flag that is set, so the flag stays set in all later states; and a transaction that
  sets the flag of \<open>v\<close> is a call of \<open>vote\<close> by \<open>v\<close> itself that succeeded.
\<close>

theorem hasVoted_rises_once:
  "rises (map (\<lambda>s. hasVoted s v) (history (constructor deployer now0) txs)) \<le> 1
 \<and> (hasVoted s v \<longrightarrow> hasVoted (transact tx s) v)
 \<and> (hasVoted s v \<longrightarrow> (\<forall>s' \<in> set (history s txs). hasVoted s' v))
 \<and> (\<not> hasVoted s v \<and> hasVoted (transact tx s) v \<longrightarrow>
       (\<exists>now c. tx = (v, now, Vote c) \<and> vote v now c s = Inr (transact tx s)))"
proof -
  have 3: "hasVoted s v \<longrightarrow> (\<forall>s' \<in> set (history s txs). hasVoted s' v)"
    using history_hasVoted by blast
  have 4: "\<not> hasVoted s v \<and> hasVoted (transact tx s) v \<longrightarrow>
       (\<exists>now c. tx = (v, now, Vote c) \<and> vote v now c s = Inr (transact tx s))"
    using transact_hasVoted_cause [of s v tx] by auto
  from rises_at_most_once transact_hasVoted_mono 3 4 show ?thesis by blast
qed

theorem hasVoted_rises_once_witness:
  "rises (map (\<lambda>s. hasVoted s 2) (history (constructor 1 0)
      [(1, 3, RegisterVoter 2), (1, 5, AddCandidate ''Alice''), (1, 7, ToggleVoting),
       (2, 8, Vote 1), (2, 9, Vote 1), (1, 10, ToggleVoting)])) = 1
   \<and> \<not> hasVoted example_setup 2 \<and> hasVoted (transact (2, 8, Vote 1) example_setup) 2
   \<and> (\<exists>now c. (2, 8, Vote 1) = (2 :: address, now, Vote c)
         \<and> vote 2 now c example_setup = Inr (transact (2, 8, Vote 1) example_setup))
   \<and> hasVoted (transact (1, 10, ToggleVoting) (transact (2, 8, Vote 1) example_setup)) 2"
proof -
  have 1: "rises (map (\<lambda>s. hasVoted s 2) (history (constructor 1 0)
      [(1, 3, RegisterVoter 2), (1, 5, AddCandidate ''Alice''), (1, 7, ToggleVoting),
       (2, 8, Vote 1), (2, 9, Vote 1), (1, 10, ToggleVoting)])) = 1"
    by (simp add: transact_def cases_defs constructor_def emit_def uint_max_def)
  have 2: "\<not> hasVoted example_setup 2" "hasVoted (transact (2, 8, Vote 1) example_setup) 2"
    by (simp_all add: example_setup_eq transact_def cases_defs uint_max_def)
  from hasVoted_rises_once [of 2 _ _ _ example_setup "(2, 8, Vote 1)"] 2
  have 3: "\<exists>now c. (2, 8, Vote 1) = (2 :: address, now, Vote c)
         \<and> vote 2 now c example_setup = Inr (transact (2, 8, Vote 1) example_setup)"
    by blast
  from hasVoted_rises_once [of 2 _ _ _ "transact (2, 8, Vote 1) example_setup"
      "(1, 10, ToggleVoting)"] 2
  have 4: "hasVoted (transact (1, 10, ToggleVoting) (transact (2, 8, Vote 1) example_setup)) 2"
    by blast
  from 1 2 3 4 show ?thesis by blast
qed

section \<open>Adding candidates\<close>

text \<open>
  Claim C4, as stated, fails: the contract compares the length of the name in bytes with
  0 and does not trim it. A name of two spaces has trimmed length 0, yet \<open>addCandidate\<close>
  accepts it and stores it as candidate 1.
\<close>

theorem addCandidate_blank_name_counterexample:
  "length (trimmed ''  '') = 0
   \<and> addCandidate 1 5 ''  '' (constructor 1 0) =
       Inr ((constructor 1 0)\<lparr>candidateCount := 1,
              candidates := (candidates (constructor 1 0))(1 := ''  ''),
              events := events (constructor 1 0) @ [CandidateAdded 1 ''  '' 5]\<rparr>)"
  by (simp add: trimmed_def is_space_def addCandidate_cases constructor_def emit_def uint_max_def)

text \<open>
  Claim C4, amended. \<open>addCandidate\<close> called by the admin reverts with "Candidate name
  cannot be empty" when the name has 0 bytes and with "Candidate name too long" when it has
  more than 64 bytes; otherwise, \<open>candidateCount\<close> being below the largest \<open>uint\<close>, it
  succeeds: the new candidate gets the id \<open>candidateCount + 1\<close>, which becomes the new
  \<open>candidateCount\<close> and extends the list of ids at its end, the name is stored under
  that id, a \<open>CandidateAdded\<close> event is logged, and in a reachable state the vote count
  of the new id is 0. In every reachable state the \<open>CandidateAdded\<close> events of the log
  are, in order, the ids \<open>1, ..., candidateCount\<close> with the names stored for them.
\<close>

theorem addCandidate_outcomes:
  assumes "sender = admin s"
  shows "(length name = 0 \<longrightarrow> addCandidate sender now name s = Inl EmptyName)
       \<and> (64 < length name \<longrightarrow> addCandidate sender now name s = Inl NameTooLong)
       \<and> (0 < length name \<and> length name \<le> 64 \<and> candidateCount s \<noteq> uint_max \<longrightarrow>
            addCandidate sender now name s =
              Inr (s\<lparr>candidateCount := candidateCount s + 1,
                     candidates := (candidates s)(candidateCount s + 1 := name),
                     events := events s @ [CandidateAdded (candidateCount s + 1) name now]\<rparr>)
            \<and> unat (candidateCount s + 1) = unat (candidateCount s) + 1
            \<and> candidate_ids (s\<lparr>candidateCount := candidateCount s + 1\<rparr>)
                = candidate_ids s @ [candidateCount s + 1]
            \<and> (reachable s \<longrightarrow> voteCounts s (candidateCount s + 1) = 0))
       \<and> (reachable s \<longrightarrow>
            candidates_added s = map (\<lambda>i. (i, candidates s i)) (candidate_ids s))"
proof -
  have 1: "length name = 0 \<longrightarrow> addCandidate sender now name s = Inl EmptyName"
    using assms by (simp add: addCandidate_cases)
  have 2: "64 < length name \<longrightarrow> addCandidate sender now name s = Inl NameTooLong"
    using assms by (auto simp: addCandidate_cases)
  have 3: "0 < length name \<and> length name \<le> 64 \<and> candidateCount s \<noteq> uint_max \<longrightarrow>
            addCandidate sender now name s =
              Inr (s\<lparr>candidateCount := candidateCount s + 1,
                     candidates := (candidates s)(candidateCount s + 1 := name),
                     events := events s @ [CandidateAdded (candidateCount s + 1) name now]\<rparr>)
            \<and> unat (candidateCount s + 1) = unat (candidateCount s) + 1
            \<and> candidate_ids (s\<lparr>candidateCount := candidateCount s + 1\<rparr>)
                = candidate_ids s @ [candidateCount s + 1]
            \<and> (reachable s \<longrightarrow> voteCounts s (candidateCount s + 1) = 0)"
  proof (intro impI, elim conjE)
    assume n: "0 < length name" "length name \<le> 64" and m: "candidateCount s \<noteq> uint_max"
    have a: "addCandidate sender now name s =
              Inr (s\<lparr>candidateCount := candidateCount s + 1,
                     candidates := (candidates s)(candidateCount s + 1 := name),
                     events := events s @ [CandidateAdded (candidateCount s + 1) name now]\<rparr>)"
      using assms n m by (simp add: addCandidate_cases)
    have b: "unat (candidateCount s + 1) = unat (candidateCount s) + 1"
      using m by (simp add: unat_inc)
    have c: "candidate_ids (s\<lparr>candidateCount := candidateCount s + 1\<rparr>)
                = candidate_ids s @ [candidateCount s + 1]"
      by (rule candidate_ids_inc [OF m]) simp
    have d: "reachable s \<longrightarrow> voteCounts s (candidateCount s + 1) = 0"
    proof
      assume "reachable s"
      then have "votes_in_range s" using reachable_invariant by (simp add: invariant_def)
      moreover have "\<not> candidateCount s + 1 \<le> candidateCount s"
        using m by (simp add: word_le_nat_alt unat_inc)
      ultimately show "voteCounts s (candidateCount s + 1) = 0"
        unfolding votes_in_range_def by blast
    qed
    from a b c d show "addCandidate sender now name s =
              Inr (s\<lparr>candidateCount := candidateCount s + 1,
                     candidates := (candidates s)(candidateCount s + 1 := name),
                     events := events s @ [CandidateAdded (candidateCount s + 1) name now]\<rparr>)
            \<and> unat (candidateCount s + 1) = unat (candidateCount s) + 1
            \<and> candidate_ids (s\<lparr>candidateCount := candidateCount s + 1\<rparr>)
                = candidate_ids s @ [candidateCount s + 1]
            \<and> (reachable s \<longrightarrow> voteCounts s (candidateCount s + 1) = 0)"
      by (intro conjI)
  qed
  have 4: "reachable s \<longrightarrow>
            candidates_added s = map (\<lambda>i. (i, candidates s i)) (candidate_ids s)"
    using reachable_invariant [of s] by (simp add: invariant_def roster_ok_def)
  from 1 2 3 4 show ?thesis by (intro conjI)
qed

theorem addCandidate_outcomes_witness:
  "(1 :: address) = admin example_setup \<and> reachable example_setup
   \<and> addCandidate 1 10 [] example_setup = Inl EmptyName
   \<and> addCandidate 1 10 (replicate 65 CHR ''A'') example_setup = Inl NameTooLong
   \<and> addCandidate 1 10 ''Carol'' example_setup =
        Inr (example_setup\<lparr>candidateCount := 3,
               candidates := (candidates example_setup)(3 := ''Carol''),
               events := events example_setup @ [CandidateAdded 3 ''Carol'' 10]\<rparr>)
   \<and> voteCounts example_setup 3 = 0
   \<and> candidates_added example_setup = [(1, ''Alice''), (2, ''Bob'')]"
proof -
  have a: "(1 :: address) = admin example_setup" by (simp add: example_setup_eq)
  have m: "candidateCount example_setup \<noteq> uint_max" "candidateCount example_setup + 1 = 3"
    by (simp_all add: example_setup_eq uint_max_def)
  note w = addCandidate_outcomes [OF a]
  have 1: "addCandidate 1 10 [] example_setup = Inl EmptyName"
    using w [of "[]" 10] by simp
  have 2: "addCandidate 1 10 (replicate 65 CHR ''A'') example_setup = Inl NameTooLong"
    using w [of "replicate 65 CHR ''A''" 10] by simp
  have 3: "addCandidate 1 10 ''Carol'' example_setup =
        Inr (example_setup\<lparr>candidateCount := 3,
               candidates := (candidates example_setup)(3 := ''Carol''),
               events := events example_setup @ [CandidateAdded 3 ''Carol'' 10]\<rparr>)"
    "voteCounts example_setup 3 = 0"
    using w [of "''Carol''" 10] m example_setup_reachable by simp_all
  have "candidates_added example_setup
          = map (\<lambda>i. (i, candidates example_setup i)) (candidate_ids example_setup)"
    using w [of "[]" 10] example_setup_reachable by simp
  then have 4: "candidates_added example_setup = [(1, ''Alice''), (2, ''Bob'')]"
    by (simp add: example_ids) (simp add: example_setup_eq)
  from a example_setup_reachable 1 2 3 4 show ?thesis by (intro conjI)
qed

section \<open>Results and winner\<close>

declare getWinner_loop.simps [simp del] showResults_loop.simps [simp del]

lemma ids_from_1: "ids_from s 1 = candidate_ids s"
  by (simp add: ids_from_def candidate_ids_def)

lemma ids_from_done: "\<not> i \<le> candidateCount s \<Longrightarrow> ids_from s i = []"
  by (simp add: ids_from_def word_le_nat_alt)

lemma below_max: "i \<le> c \<Longrightarrow> c \<noteq> uint_max \<Longrightarrow> i \<noteq> uint_max"
  unfolding uint_max_def using word_order.extremum_unique by blast

lemma ids_from_step:
  assumes "i \<le> candidateCount s" and "candidateCount s \<noteq> uint_max"
  shows "ids_from s i = i # ids_from s (i + 1)"
proof -
  from assms have "i \<noteq> uint_max" by (rule below_max)
  then have 1: "unat (i + 1) = Suc (unat i)" by (rule unat_inc)
  from assms(1) have "unat i < Suc (unat (candidateCount s))"
    by (simp add: word_le_nat_alt)
  then have 2: "[unat i..<Suc (unat (candidateCount s))]
                  = unat i # [Suc (unat i)..<Suc (unat (candidateCount s))]"
    by (rule upt_conv_Cons)
  show ?thesis unfolding ids_from_def 1 2 by simp
qed

lemma getWinner_loop_fold:
  assumes "candidateCount s \<noteq> uint_max"
  shows "getWinner_loop s i h w = Inr (foldl (scan_step s) (h, w) (ids_from s i))"
  using assms
proof (induction s i h w rule: getWinner_loop.induct)
  case (1 s i h w)
  show ?case
  proof (cases "i \<le> candidateCount s")
    case False
    then show ?thesis
      by (subst getWinner_loop.simps) (simp add: ids_from_done)
  next
    case True
    define hw where "hw = (if voteCounts s i > h then (voteCounts s i, i) else (h, w))"
    from True "1.prems" have m: "i \<noteq> uint_max" by (rule below_max)
    have "getWinner_loop s i h w = getWinner_loop s (i + 1) (fst hw) (snd hw)"
      using True m by (subst getWinner_loop.simps) (simp add: hw_def)
    also have "\<dots> = Inr (foldl (scan_step s) (fst hw, snd hw) (ids_from s (i + 1)))"
      using "1.IH" [OF True hw_def m "1.prems"] .
    also have "(fst hw, snd hw) = scan_step s (h, w) i"
      by (simp add: hw_def scan_step_def)
    finally show ?thesis
      by (simp add: ids_from_step [OF True "1.prems"])
  qed
qed


lemma take_update_snoc: "k < length xs \<Longrightarrow> take (Suc k) (xs[k := v]) = take k xs @ [v]"
  by (simp add: take_Suc_conv_app_nth)

lemma showResults_loop_fold:
  assumes "candidateCount s \<noteq> uint_max" and "0 < i"
    and "length votes = unat (candidateCount s)" and "length names = unat (candidateCount s)"
  shows "showResults_loop s i votes names h w =
           Inr (take (unat i - 1) votes @ map (voteCounts s) (ids_from s i),
                take (unat i - 1) names @ map (candidates s) (ids_from s i),
                snd (foldl (scan_step s) (h, w) (ids_from s i)))"
  using assms
proof (induction s i votes names h w rule: showResults_loop.induct)
  case (1 s i votes names h w)
  note m = "1.prems"(1) and pos = "1.prems"(2) and lv = "1.prems"(3) and ln = "1.prems"(4)
  show ?case
  proof (cases "i \<le> candidateCount s")
    case False
    then have "unat (candidateCount s) \<le> unat i - 1"
      by (simp add: word_le_nat_alt)
    with False lv ln show ?thesis
      by (subst showResults_loop.simps) (simp add: ids_from_done)
  next
    case True
    define j where "j = i - 1"
    define votes' where "votes' = votes[unat j := voteCounts s i]"
    define names' where "names' = names[unat j := candidates s i]"
    define hw where "hw = (if voteCounts s i > h then (voteCounts s i, i) else (h, w))"
    from pos have nz: "i \<noteq> 0" by auto
    then have cd: "checked_dec i = Inr j" by (simp add: checked_dec_def j_def)
    from nz have uj: "unat j = unat i - 1" "unat i = Suc (unat j)"
      using unat_gt_0 [of i] by (simp_all add: j_def unat_minus_one)
    from True have "unat i \<le> unat (candidateCount s)" by (simp add: word_le_nat_alt)
    with uj(2) have jv: "unat j < length votes" and jn: "unat j < length names"
      by (simp_all add: lv ln)
    from True m have im: "i \<noteq> uint_max" by (rule below_max)
    then have ui: "unat (i + 1) - 1 = Suc (unat j)" by (simp add: unat_inc uj(2))
    have pos': "0 < i + 1"
      using im unat_inc [OF im] by (simp add: word_less_nat_alt)
    have "showResults_loop s i votes names h w
            = showResults_loop s (i + 1) votes' names' (fst hw) (snd hw)"
      using True cd jv jn im
      by (subst showResults_loop.simps) (simp add: votes'_def names'_def hw_def Let_def)
    also have "\<dots> = Inr (take (unat (i + 1) - 1) votes' @ map (voteCounts s) (ids_from s (i + 1)),
                take (unat (i + 1) - 1) names' @ map (candidates s) (ids_from s (i + 1)),
                snd (foldl (scan_step s) (fst hw, snd hw) (ids_from s (i + 1))))"
      using "1.IH" [OF True cd _ _ votes'_def names'_def hw_def im m pos'] jv jn lv ln
      by (simp add: votes'_def names'_def)
    also have "take (unat (i + 1) - 1) votes' = take (unat i - 1) votes @ [voteCounts s i]"
      unfolding ui votes'_def uj(1) [symmetric] using jv by (rule take_update_snoc)
    also have "take (unat (i + 1) - 1) names' = take (unat i - 1) names @ [candidates s i]"
      unfolding ui names'_def uj(1) [symmetric] using jn by (rule take_update_snoc)
    also have "(fst hw, snd hw) = scan_step s (h, w) i"
      by (simp add: hw_def scan_step_def)
    finally show ?thesis
      by (simp add: ids_from_step [OF True m])
  qed
qed


lemma scan_fold:
  assumes "foldl (scan_step s) (h0, w0) xs = (h, w)"
  shows "(h = h0 \<and> w = w0 \<and> (\<forall>i \<in> set xs. voteCounts s i \<le> h0))
       \<or> (\<exists>pre post. xs = pre @ w # post \<and> h = voteCounts s w \<and> h0 < h
              \<and> (\<forall>i \<in> set pre. voteCounts s i < h)
              \<and> (\<forall>i \<in> set post. voteCounts s i \<le> h))"
  using assms
proof (induction xs arbitrary: h w rule: rev_induct)
  case Nil
  then show ?case by simp
next
  case (snoc x xs)
  obtain h1 w1 where f: "foldl (scan_step s) (h0, w0) xs = (h1, w1)"
    by (cases "foldl (scan_step s) (h0, w0) xs")
  note IH = snoc.IH [OF f]
  from snoc.prems f have st: "scan_step s (h1, w1) x = (h, w)" by simp
  from IH have le: "h0 \<le> h1" by auto
  from IH have all: "\<forall>i \<in> set xs. voteCounts s i \<le> h1" by (fastforce simp: less_le)
  show ?case
  proof (cases "voteCounts s x > h1")
    case True
    with st have hw: "h = voteCounts s x" "w = x"
      by (auto simp: scan_step_def)
    from all True have "\<forall>i \<in> set xs. voteCounts s i < h" by (auto simp: hw)
    moreover from le True have "h0 < h" by (simp add: hw)
    ultimately have "xs @ [x] = xs @ w # [] \<and> h = voteCounts s w \<and> h0 < h
              \<and> (\<forall>i \<in> set xs. voteCounts s i < h)
              \<and> (\<forall>i \<in> set []. voteCounts s i \<le> h)"
      by (simp add: hw)
    then show ?thesis by blast
  next
    case False
    with st have hw: "h = h1" "w = w1"
      by (auto simp: scan_step_def)
    from False have x: "voteCounts s x \<le> h" by (simp add: hw)
    from IH show ?thesis
    proof
      assume "h1 = h0 \<and> w1 = w0 \<and> (\<forall>i \<in> set xs. voteCounts s i \<le> h0)"
      with x show ?thesis by (auto simp: hw)
    next
      assume "\<exists>pre post. xs = pre @ w1 # post \<and> h1 = voteCounts s w1 \<and> h0 < h1
              \<and> (\<forall>i \<in> set pre. voteCounts s i < h1)
              \<and> (\<forall>i \<in> set post. voteCounts s i \<le> h1)"
      then obtain pre post where p: "xs = pre @ w1 # post" "h1 = voteCounts s w1" "h0 < h1"
        "\<forall>i \<in> set pre. voteCounts s i < h1" "\<forall>i \<in> set post. voteCounts s i \<le> h1"
        by blast
      with x have "xs @ [x] = pre @ w # (post @ [x]) \<and> h = voteCounts s w \<and> h0 < h
              \<and> (\<forall>i \<in> set pre. voteCounts s i < h)
              \<and> (\<forall>i \<in> set (post @ [x]). voteCounts s i \<le> h)"
        by (simp add: hw)
      then show ?thesis by blast
    qed
  qed
qed

lemma linear_scan_lowest_max:
  assumes "candidateCount s \<noteq> 0"
  shows "lowest_max s (snd (linear_scan s))
       \<and> fst (linear_scan s) = voteCounts s (snd (linear_scan s))"
proof -
  obtain h w where l: "linear_scan s = (h, w)" by (cases "linear_scan s")
  then have f: "foldl (scan_step s) (0, 1) (candidate_ids s) = (h, w)"
    by (simp add: linear_scan_def)
  from assms have one: "1 \<in> set (candidate_ids s)"
    by (simp add: candidate_ids_set word_le_nat_alt unat_gt_0 Suc_le_eq)
  have low: "\<forall>i \<in> set (candidate_ids s). 1 \<le> i"
    by (auto simp: candidate_ids_set word_le_nat_alt word_less_nat_alt)
  from scan_fold [OF f] have "lowest_max s w \<and> h = voteCounts s w"
  proof
    assume a: "h = 0 \<and> w = 1 \<and> (\<forall>i \<in> set (candidate_ids s). voteCounts s i \<le> 0)"
    then have "\<forall>i \<in> set (candidate_ids s). voteCounts s i = 0" by simp
    with a one low show ?thesis by (simp add: lowest_max_def)
  next
    assume "\<exists>pre post. candidate_ids s = pre @ w # post \<and> h = voteCounts s w \<and> 0 < h
              \<and> (\<forall>i \<in> set pre. voteCounts s i < h)
              \<and> (\<forall>i \<in> set post. voteCounts s i \<le> h)"
    then obtain pre post where p: "candidate_ids s = pre @ w # post" "h = voteCounts s w"
      "\<forall>i \<in> set pre. voteCounts s i < h" "\<forall>i \<in> set post. voteCounts s i \<le> h"
      by blast
    from candidate_ids_sorted [of s] have "\<forall>i \<in> set post. w < i"
      by (simp add: p(1) sorted_wrt_append)
    with p show ?thesis by (auto simp: lowest_max_def)
  qed
  with l show ?thesis by simp
qed

lemma new_array_ok:
  "unat n < 2 ^ 64 \<Longrightarrow> new_array n x = Inr (replicate (unat n) x)"
  by (simp add: new_array_def word_less_nat_alt)

lemma new_array_too_large:
  "2 ^ 64 \<le> unat n \<Longrightarrow> new_array n x = Inl (Panic 0x41)"
  by (simp add: new_array_def word_less_nat_alt)

lemma below_2_64: "unat (n :: uint) < 2 ^ 64 \<Longrightarrow> n \<noteq> uint_max"
  using unat_uint_max by auto

lemma showResults_too_many:
  "2 ^ 64 \<le> unat (candidateCount s) \<Longrightarrow> showResults s = Inl (Panic 0x41)"
  by (simp add: showResults_def new_array_too_large)

lemma showResults_eq:
  assumes "unat (candidateCount s) < 2 ^ 64"
  shows "showResults s =
           Inr (map (voteCounts s) (candidate_ids s), map (candidates s) (candidate_ids s),
                if candidateCount s = 0 then 0 else snd (linear_scan s))"
proof (cases "candidateCount s = 0")
  case True
  then show ?thesis by (simp add: showResults_def new_array_def candidate_ids_def)
next
  case False
  have "showResults s = showResults_loop s 1 (replicate (unat (candidateCount s)) 0)
                          (replicate (unat (candidateCount s)) []) 0 1"
    using False by (simp add: showResults_def new_array_ok [OF assms])
  also have "\<dots> = Inr (map (voteCounts s) (ids_from s 1), map (candidates s) (ids_from s 1),
                snd (foldl (scan_step s) (0, 1) (ids_from s 1)))"
    by (subst showResults_loop_fold [OF below_2_64 [OF assms]]) simp_all
  finally show ?thesis using False by (simp add: ids_from_1 linear_scan_def)
qed

lemma getWinner_eq:
  assumes "candidateCount s \<noteq> uint_max"
  shows "getWinner s =
           Inr (if candidateCount s = 0 then ([], 0, False)
                else (candidates s (snd (linear_scan s)), fst (linear_scan s), True))"
  by (simp add: getWinner_def getWinner_loop_fold [OF assms] ids_from_1 linear_scan_def
      split: prod.split)

lemma getWinner_loop_overflow:
  assumes "candidateCount s = uint_max"
  shows "getWinner_loop s i h w = Inl (Panic 0x11)"
  using assms
proof (induction s i h w rule: getWinner_loop.induct)
  case (1 s i h w)
  have le: "i \<le> candidateCount s" by (simp add: "1.prems" uint_max_def)
  show ?case
  proof (cases "i = uint_max")
    case True
    with le show ?thesis by (subst getWinner_loop.simps) simp
  next
    case False
    define hw where "hw = (if voteCounts s i > h then (voteCounts s i, i) else (h, w))"
    have "getWinner_loop s i h w = getWinner_loop s (i + 1) (fst hw) (snd hw)"
      using le False by (subst getWinner_loop.simps) (simp add: hw_def)
    with "1.IH" [OF le hw_def False "1.prems"] show ?thesis by simp
  qed
qed

lemma scan_no_votes:
  "\<forall>i \<in> set xs. voteCounts s i \<le> h \<Longrightarrow> foldl (scan_step s) (h, w) xs = (h, w)"
  by (induction xs) (auto simp: scan_step_def)

text \<open>
  Claim C3. In every state with fewer than \<open>2^64\<close> candidates, \<open>showResults\<close> returns
  the vote counts and the names of the candidates \<open>1, ..., candidateCount\<close> in this
  order, and as winner the result of the scan of the specification (\<open>highest = 0\<close>,
  \<open>winner = 1\<close>, updated where a vote count is strictly greater than \<open>highest\<close>), which
  is the lowest id among the candidates with the maximal vote count; without candidates it
  returns two empty arrays and the winner 0. \<open>getWinner\<close> returns the name and the vote
  count of that winner with \<open>winnerExists = true\<close>, and its flag \<open>winnerExists\<close> is false
  exactly when \<open>candidateCount\<close> is 0. (From \<open>2^64\<close> candidates on, the allocation of the
  two result arrays reverts with \<open>Panic(0x41)\<close>: \<open>showResults_too_many\<close>.)
\<close>

theorem showResults_scan:
  assumes "unat (candidateCount s) < 2 ^ 64"
  shows "showResults s =
           Inr (map (voteCounts s) (candidate_ids s), map (candidates s) (candidate_ids s),
                if candidateCount s = 0 then 0 else snd (linear_scan s))
       \<and> (candidateCount s \<noteq> 0 \<longrightarrow> lowest_max s (snd (linear_scan s)))
       \<and> (candidateCount s = 0 \<longrightarrow> showResults s = Inr ([], [], 0))
       \<and> getWinner s =
           Inr (if candidateCount s = 0 then ([], 0, False)
                else (candidates s (snd (linear_scan s)),
                      voteCounts s (snd (linear_scan s)), True))
       \<and> (\<exists>name v e. getWinner s = Inr (name, v, e) \<and> (e = False \<longleftrightarrow> candidateCount s = 0))"
proof -
  note m = below_2_64 [OF assms]
  note 1 = showResults_eq [OF assms]
  have 2: "candidateCount s \<noteq> 0 \<longrightarrow> lowest_max s (snd (linear_scan s))"
    using linear_scan_lowest_max by blast
  have 3: "candidateCount s = 0 \<longrightarrow> showResults s = Inr ([], [], 0)"
    by (simp add: showResults_def new_array_def)
  have 4: "\<exists>name v e. getWinner s = Inr (name, v, e) \<and> (e = False \<longleftrightarrow> candidateCount s = 0)"
    by (auto simp: getWinner_eq [OF m])
  have 5: "getWinner s =
           Inr (if candidateCount s = 0 then ([], 0, False)
                else (candidates s (snd (linear_scan s)),
                      voteCounts s (snd (linear_scan s)), True))"
    using linear_scan_lowest_max [of s] by (simp add: getWinner_eq [OF m])
  from 1 2 3 5 4 show ?thesis by (intro conjI)
qed

theorem showResults_scan_witness:
  "unat (candidateCount example_voted) < 2 ^ 64
   \<and> showResults example_voted = Inr ([1, 1], [''Alice'', ''Bob''], 1)
   \<and> lowest_max example_voted 1
   \<and> getWinner example_voted = Inr (''Alice'', 1, True)
   \<and> unat (candidateCount (constructor 1 0)) < 2 ^ 64
   \<and> showResults (constructor 1 0) = Inr ([], [], 0)
   \<and> (\<exists>name v. getWinner (constructor 1 0) = Inr (name, v, False))"
proof -
  have m: "unat (candidateCount example_voted) < 2 ^ 64" "candidateCount example_voted \<noteq> 0"
    by (simp_all add: example_voted_eq)
  have l: "linear_scan example_voted = (1, 1)"
    by (simp add: linear_scan_def example_ids scan_step_def) (simp add: example_voted_eq)
  have v: "map (voteCounts example_voted) [1, 2] = [1, 1]"
    "map (candidates example_voted) [1, 2] = [''Alice'', ''Bob'']"
    "voteCounts example_voted 1 = 1" "candidates example_voted 1 = ''Alice''"
    by (simp_all add: example_voted_eq)
  have z: "unat (candidateCount (constructor 1 0)) < 2 ^ 64"
    "candidateCount (constructor 1 0) = 0"
    by (simp_all add: constructor_def emit_def)
  from showResults_scan [OF m(1)] m(2) l v
  have 1: "showResults example_voted = Inr ([1, 1], [''Alice'', ''Bob''], 1)"
    "lowest_max example_voted 1"
    "getWinner example_voted = Inr (''Alice'', 1, True)"
    by (simp_all add: example_ids)
  from showResults_scan [OF z(1)] z(2)
  have 2: "showResults (constructor 1 0) = Inr ([], [], 0)"
    "\<exists>name v. getWinner (constructor 1 0) = Inr (name, v, False)"
    by blast+
  from m(1) z(1) 1 2 show ?thesis by (intro conjI)
qed

text \<open>
  Claim C9. In every state with at least one candidate (and \<open>candidateCount\<close> below the
  largest \<open>uint\<close>) in which all candidates have the vote count 0, \<open>getWinner\<close> returns the
  name of candidate 1, the vote count 0 and \<open>winnerExists = true\<close>.
\<close>

theorem getWinner_without_votes:
  assumes "candidateCount s \<noteq> 0" and "candidateCount s \<noteq> uint_max"
    and "\<forall>i \<in> set (candidate_ids s). voteCounts s i = 0"
  shows "getWinner s = Inr (candidates s 1, 0, True)"
proof -
  from assms(3) have "linear_scan s = (0, 1)"
    unfolding linear_scan_def by (intro scan_no_votes) simp
  with assms(1) show ?thesis by (simp add: getWinner_eq [OF assms(2)])
qed

theorem getWinner_without_votes_witness:
  "candidateCount example_setup \<noteq> 0 \<and> candidateCount example_setup \<noteq> uint_max
   \<and> candidate_ids example_setup = [1, 2]
   \<and> voteCounts example_setup 1 = 0 \<and> voteCounts example_setup 2 = 0
   \<and> totalVotes example_setup = 0
   \<and> getWinner example_setup = Inr (''Alice'', 0, True)"
proof -
  have a: "candidateCount example_setup \<noteq> 0" "candidateCount example_setup \<noteq> uint_max"
    "totalVotes example_setup = 0" "candidates example_setup 1 = ''Alice''"
    "voteCounts example_setup 1 = 0" "voteCounts example_setup 2 = 0"
    by (simp_all add: example_setup_eq uint_max_def)
  have b: "\<forall>i \<in> set (candidate_ids example_setup). voteCounts example_setup i = 0"
    by (simp add: example_setup_eq)
  from getWinner_without_votes [OF a(1,2) b] a example_ids(2) show ?thesis by simp
qed

end
